theory Spec2Isabelle
  imports Main "HOL-Library.Word"
begin

section \<open>JavaScript strings\<close>

text \<open>
  A JavaScript string is a sequence of UTF-16 code units, and a regular expression without the
  \<^verbatim>\<open>u\<close> flag matches one code unit at a time. Strings are therefore lists of 16-bit words;
  \<open>js\<close> embeds an ASCII literal.
\<close>

type_synonym jschar = "16 word"
type_synonym jsstring = "jschar list"

definition js :: "string \<Rightarrow> jsstring" where
  "js s = map of_char s"

text \<open>\<^verbatim>\<open>Array.prototype.join(sep)\<close> on an array of strings.\<close>

fun join :: "jsstring \<Rightarrow> jsstring list \<Rightarrow> jsstring" where
  "join sep [] = []"
| "join sep [x] = x"
| "join sep (x # y # ys) = x @ sep @ join sep (y # ys)"

text \<open>
  \<^verbatim>\<open>s.replace(/[class]/g, rep)\<close> and \<^verbatim>\<open>s.replace(/[class]/, rep)\<close> for a character class and a
  replacement string without \<^verbatim>\<open>$\<close> patterns: with the \<^verbatim>\<open>g\<close> flag every matching code unit
  is replaced, without it only the first one.
\<close>

definition replace_all :: "(jschar \<Rightarrow> bool) \<Rightarrow> jsstring \<Rightarrow> jsstring \<Rightarrow> jsstring" where
  "replace_all cls rep s = concat (map (\<lambda>c. if cls c then rep else [c]) s)"

fun replace_first :: "(jschar \<Rightarrow> bool) \<Rightarrow> jsstring \<Rightarrow> jsstring \<Rightarrow> jsstring" where
  "replace_first cls rep [] = []"
| "replace_first cls rep (c # cs) = (if cls c then rep @ cs else c # replace_first cls rep cs)"

text \<open>
  The template literal \<^verbatim>\<open>${n}\<close> of an integer number \<open>n\<close>: its decimal digits (numbers of
  magnitude below \<open>10\<^sup>2\<^sup>1\<close>, which covers every identifier that is a safe integer).
\<close>

fun digits :: "nat \<Rightarrow> jsstring" where
  "digits n = (if n < 10 then [of_nat (48 + n)] else digits (n div 10) @ [of_nat (48 + n mod 10)])"

declare digits.simps [simp del]

definition numberToString :: "int \<Rightarrow> jsstring" where
  "numberToString n = (if n < 0 then js ''-'' @ digits (nat (- n)) else digits (nat n))"


section \<open>\<^verbatim>\<open>fixPath\<close>\<close>

text \<open>
  The class \<^verbatim>\<open>[\\\/:\*\?"<>\|\n\r]\<close> of \<^verbatim>\<open>dirNameReg\<close>: backslash, slash, colon, asterisk,
  question mark, double quote, less-than, greater-than, vertical bar, line feed, carriage
  return.
\<close>

definition dirNameReg :: "jschar \<Rightarrow> bool" where
  "dirNameReg c \<longleftrightarrow>
     c \<in> {0x5C, 0x2F, 0x3A, 0x2A, 0x3F, 0x22, 0x3C, 0x3E, 0x7C, 0x0A, 0x0D}"

text \<open>
  The class \<^verbatim>\<open>\s\<close> of ECMAScript: tab, line feed, vertical tab, form feed, carriage return,
  space, no-break space, the other space separators of Unicode, the line and paragraph
  separators and the byte order mark.
\<close>

definition whitespace :: "jschar \<Rightarrow> bool" where
  "whitespace c \<longleftrightarrow>
     c \<in> {0x09, 0x0A, 0x0B, 0x0C, 0x0D, 0x20, 0xA0, 0x1680, 0x2028, 0x2029, 0x202F, 0x205F,
          0x3000, 0xFEFF}
     \<or> (0x2000 \<le> c \<and> c \<le> 0x200A)"

text \<open>
  \<^verbatim>\<open>function fixPath(dirPath: string) {
    if (!dirPath) return ''
    const dirNameReg = /[\\\/:\*\?"<>\|\n\r]/g
    return dirPath.replace(dirNameReg, '_').replace(/\s/, '')
  }\<close>
\<close>

definition fixPath :: "jsstring \<Rightarrow> jsstring" where
  "fixPath dirPath =
     (if dirPath = [] then []
      else replace_first whitespace [] (replace_all dirNameReg (js ''_'') dirPath))"


section \<open>Data\<close>

text \<open>
  An entry of the table of contents (\<^verbatim>\<open>KnowledgeBase.Toc\<close>). The loop tests
  \<^verbatim>\<open>typeof item.type !== 'string'\<close>, so \<open>type\<close> is optional: \<open>None\<close> stands for any value that
  is not a string. The other fields are the strings their declaration promises.
\<close>

record toc =
  type :: "jsstring option"
  uuid :: jsstring
  parent_uuid :: jsstring
  child_uuid :: jsstring
  title :: jsstring
  url :: jsstring

text \<open>\<^verbatim>\<open>IProgressItem\<close>: the object literals built in the loop.\<close>

record progress_item =
  path :: jsstring
  pathTitleList :: "jsstring list"
  pathIdList :: "jsstring list"
  toc :: toc

text \<open>\<^verbatim>\<open>uuidMap = new Map<string, IProgressItem>()\<close>; a stored object is always truthy, so
  \<^verbatim>\<open>if (uuidMap.get(k))\<close> tests whether the key is present.\<close>

type_synonym index = "jsstring \<rightharpoonup> progress_item"

text \<open>\<^verbatim>\<open>IKnowledgeBaseInfo\<close>: every field may be missing (\<^verbatim>\<open>undefined\<close>).\<close>

record knowledge_base_info =
  bookId :: "int option"
  bookSlug :: "jsstring option"
  tocList :: "toc list option"
  bookName :: "jsstring option"
  bookDesc :: "jsstring option"

text \<open>The two fields of \<^verbatim>\<open>IOptions\<close> that \<^verbatim>\<open>main\<close> reads.\<close>

record options =
  distDir :: jsstring
  ignoreImg :: bool

text \<open>\<^verbatim>\<open>IDownloadArticleParams\<close>, the argument of \<^verbatim>\<open>downloadArticle\<close>.\<close>

record download_params =
  arg_bookId :: int
  arg_itemUrl :: jsstring
  arg_savePath :: jsstring
  arg_saveFilePath :: jsstring
  arg_uuid :: jsstring
  arg_articleUrl :: jsstring
  arg_articleTitle :: jsstring
  arg_ignoreImg :: bool

text \<open>An element of \<^verbatim>\<open>errArticleInfo\<close>; the caught error is kept through its message.\<close>

record err_info =
  articleUrl :: jsstring
  errItem :: progress_item
  errMsg :: jsstring

text \<open>
  The fields of the \<^verbatim>\<open>ProgressBar\<close> object that \<^verbatim>\<open>main\<close> reads: the number of entries
  counted as done, whether an earlier run was interrupted, and the items that run recorded.
\<close>

record progress_bar =
  curr :: nat
  isDownloadInterrupted :: bool
  progressInfo :: "progress_item list"


section \<open>The outside world\<close>

text \<open>
  An awaited call either resolves with a value or rejects with an error, which is kept
  through its message.
\<close>

datatype 'a promise = Resolved 'a | Rejected jsstring

text \<open>The lines \<^verbatim>\<open>main\<close> writes to the logger, with the values interpolated into them.\<close>

datatype log_line =
    AlreadyDone jsstring jsstring
  | LinkHeader
  | LinkLine jsstring jsstring
  | FailHeader nat nat
  | FailLine jsstring jsstring
  | FailReason jsstring
  | FailFooter
  | SummaryDone jsstring jsstring
  | Done jsstring jsstring

text \<open>The calls \<^verbatim>\<open>main\<close> makes to its collaborators, in the order it makes them.\<close>

datatype event =
    Mkdir jsstring
  | InitProgress jsstring nat
  | DownloadArticle download_params
  | UpdateProgress progress_item bool
  | GenFile jsstring "jsstring option" "jsstring option" index
  | Log log_line

text \<open>
  What lies outside \<^verbatim>\<open>main\<close>: the network, the file system, the classes \<^verbatim>\<open>ProgressBar\<close> and
  \<^verbatim>\<open>Summary\<close>, and the built-ins of the host. The answer to a call is a function of its
  arguments; the progress bar object is an argument and a result of the calls that change it.
  Every theorem below holds for every world.
  \<^item> \<open>getKnowledgeBaseInfo\<close>: the metadata request for a URL.
  \<^item> \<open>mkdir\<close>: \<^verbatim>\<open>mkdir(path, {recursive: true})\<close>.
  \<^item> \<open>init\<close>: \<^verbatim>\<open>new ProgressBar(bookPath, total)\<close> followed by \<^verbatim>\<open>init()\<close>, which loads the
    recorded progress.
  \<^item> \<open>updateProgress\<close>: \<^verbatim>\<open>progressBar.updateProgress(progressItem, isSuccess)\<close>, from the
    object before the call to the object after it.
  \<^item> \<open>downloadArticle\<close>: the request for one article, the download of its images and the
    write of its file; \<^verbatim>\<open>main\<close> observes only whether it resolves or throws.
  \<^item> \<open>genFile\<close>: \<^verbatim>\<open>new Summary({bookPath, bookName, bookDesc, uuidMap}).genFile()\<close>.
  \<^item> \<open>toLocaleLowerCase\<close>: the built-in of that name, which depends on the Unicode tables
    and the locale of the host.
  \<^item> \<open>articleUrlPrefixOf url bookSlug\<close>: the value of
    \<^verbatim>\<open>url.replace(new RegExp(`(.*?/${bookSlug}).*`), '$1')\<close>, computed by the regular
    expression engine.
  \<^item> \<open>cwd\<close>: \<^verbatim>\<open>process.cwd()\<close>.
\<close>

record world =
  getKnowledgeBaseInfo :: "jsstring \<Rightarrow> knowledge_base_info promise"
  mkdir :: "jsstring \<Rightarrow> unit promise"
  init :: "jsstring \<Rightarrow> nat \<Rightarrow> progress_bar promise"
  updateProgress :: "progress_bar \<Rightarrow> progress_item \<Rightarrow> bool \<Rightarrow> progress_bar promise"
  downloadArticle :: "download_params \<Rightarrow> bool promise"
  genFile :: "jsstring \<Rightarrow> jsstring option \<Rightarrow> jsstring option \<Rightarrow> index \<Rightarrow> unit promise"
  toLocaleLowerCase :: "jsstring \<Rightarrow> jsstring"
  articleUrlPrefixOf :: "jsstring \<Rightarrow> jsstring option \<Rightarrow> jsstring"
  cwd :: jsstring


section \<open>\<^verbatim>\<open>main\<close>\<close>

text \<open>
  The variables of \<^verbatim>\<open>main\<close> that the loop updates, the progress bar object, and the calls
  made so far.
\<close>

record run_state =
  uuidMap :: index
  errArticleCount :: nat
  totalArticleCount :: nat
  warnArticleCount :: nat
  errArticleInfo :: "err_info list"
  warnArticleInfo :: "progress_item list"
  progressBar :: progress_bar
  trace :: "event list"

text \<open>\<^verbatim>\<open>main\<close> returns, or throws an error (kept through its message), in some state.\<close>

datatype outcome = Returned run_state | Threw jsstring run_state

text \<open>
  The ancestor walk of a title or link entry:
  \<^verbatim>\<open>while (tempItem) {
    pathTitleList.unshift(fixPath(tempItem.title))
    pathIdList.unshift(tempItem.uuid)
    if (uuidMap.get(tempItem['parent_uuid'])) {
      tempItem = uuidMap.get(tempItem['parent_uuid'])!.toc
    } else {
      tempItem = undefined
    }
  }\<close>
  Nothing in the loop bounds the number of iterations, so the walk is a partial function:
  \<open>None\<close> means that it does not return.
\<close>

partial_function (option) ancestor_walk ::
  "index \<Rightarrow> toc option \<Rightarrow> jsstring list \<Rightarrow> jsstring list \<Rightarrow> (jsstring list \<times> jsstring list) option"
where
  "ancestor_walk m tempItem pathTitleList' pathIdList' =
     (case tempItem of
        None \<Rightarrow> Some (pathTitleList', pathIdList')
      | Some t \<Rightarrow>
          ancestor_walk m
            (case m (parent_uuid t) of Some p \<Rightarrow> Some (toc p) | None \<Rightarrow> None)
            (fixPath (title t) # pathTitleList') (uuid t # pathIdList'))"

text \<open>
  The end of both branches of the loop body:
  \<^verbatim>\<open>uuidMap.set(item.uuid, progressItem)
  await progressBar.updateProgress(progressItem, isSuccess)\<close>
\<close>

definition register :: "world \<Rightarrow> toc \<Rightarrow> progress_item \<Rightarrow> bool \<Rightarrow> run_state \<Rightarrow> outcome" where
  "register w item progressItem isSuccess s =
     (let s1 = s\<lparr>uuidMap := (uuidMap s)(uuid item \<mapsto> progressItem),
                 trace := trace s @ [UpdateProgress progressItem isSuccess]\<rparr>
      in case updateProgress w (progressBar s) progressItem isSuccess of
           Rejected msg \<Rightarrow> Threw msg s1
         | Resolved pb \<Rightarrow> Returned (s1\<lparr>progressBar := pb\<rparr>))"

text \<open>
  The object built after the walk:
  \<^verbatim>\<open>const progressItem = { path: pathTitleList.join('/'), pathTitleList, pathIdList, toc: item }\<close>
\<close>

definition progress_item_of :: "jsstring list \<Rightarrow> jsstring list \<Rightarrow> toc \<Rightarrow> progress_item" where
  "progress_item_of titles ids item =
     \<lparr>path = join (js ''/'') titles, pathTitleList = titles, pathIdList = ids, toc = item\<rparr>"

text \<open>The branch for a title, a link, or an entry with a \<^verbatim>\<open>child_uuid\<close> (lines 188 to 214).\<close>

definition visit_container ::
  "world \<Rightarrow> jsstring \<Rightarrow> toc \<Rightarrow> jsstring \<Rightarrow> run_state \<Rightarrow> outcome option" where
  "visit_container w bookPath' item itemType s =
     (case ancestor_walk (uuidMap s) (Some item) [] [] of
        None \<Rightarrow> None
      | Some (titles, ids) \<Rightarrow>
          let progressItem = progress_item_of titles ids item
          in if itemType = js ''link''
             then Some (register w item progressItem (itemType \<noteq> js ''link'')
                    (s\<lparr>warnArticleCount := warnArticleCount s + 1,
                       warnArticleInfo := warnArticleInfo s @ [progressItem]\<rparr>))
             else let dir = bookPath' @ js ''/'' @ join (js ''/'') titles;
                      s1 = s\<lparr>trace := trace s @ [Mkdir dir]\<rparr>
                  in (case mkdir w dir of
                        Rejected msg \<Rightarrow> Some (Threw msg s1)
                      | Resolved u \<Rightarrow>
                          Some (register w item progressItem (itemType \<noteq> js ''link'') s1)))"

text \<open>
  The parent of an article, as far as the loop reads it:
  \<^verbatim>\<open>let preItem = { path: '', pathTitleList: [], pathIdList: [] }
  if (uuidMap.get(item['parent_uuid'])) { preItem = uuidMap.get(item['parent_uuid'])! }\<close>
\<close>

definition preItem :: "index \<Rightarrow> toc \<Rightarrow> jsstring \<times> jsstring list \<times> jsstring list" where
  "preItem m item =
     (case m (parent_uuid item) of
        None \<Rightarrow> ([], [], [])
      | Some p \<Rightarrow> (path p, pathTitleList p, pathIdList p))"

text \<open>
  \<^verbatim>\<open>const fileName = fixPath(item.title)
  const pathTitleList = [...preItem!.pathTitleList, `${fileName}.md`]
  const pathIdList = [...preItem!.pathIdList, item.uuid]
  const progressItem = { path: pathTitleList.join('/'), pathTitleList, pathIdList, toc: item }\<close>
\<close>

definition article_item :: "index \<Rightarrow> toc \<Rightarrow> progress_item" where
  "article_item m item =
     (let (prePath, preTitles, preIds) = preItem m item;
          fileName = fixPath (title item)
      in progress_item_of (preTitles @ [fileName @ js ''.md'']) (preIds @ [uuid item]) item)"

text \<open>The argument of the call of \<^verbatim>\<open>downloadArticle\<close> (lines 235 to 246).\<close>

definition article_params ::
  "options \<Rightarrow> int \<Rightarrow> jsstring \<Rightarrow> jsstring \<Rightarrow> index \<Rightarrow> toc \<Rightarrow> download_params" where
  "article_params opts bookId' bookPath' articleUrlPrefix m item =
     (let (prePath, preTitles, preIds) = preItem m item
      in \<lparr>arg_bookId = bookId', arg_itemUrl = url item,
           arg_savePath = bookPath' @ js ''/'' @ prePath,
           arg_saveFilePath = bookPath' @ js ''/'' @ path (article_item m item),
           arg_uuid = uuid item,
           arg_articleUrl = articleUrlPrefix @ js ''/'' @ url item,
           arg_articleTitle = title item, arg_ignoreImg = ignoreImg opts\<rparr>)"

text \<open>The branch for an entry with a \<^verbatim>\<open>url\<close> (lines 216 to 259).\<close>

definition visit_article ::
  "world \<Rightarrow> options \<Rightarrow> int \<Rightarrow> jsstring \<Rightarrow> jsstring \<Rightarrow> toc \<Rightarrow> run_state \<Rightarrow> outcome" where
  "visit_article w opts bookId' bookPath' articleUrlPrefix item s =
     (let progressItem = article_item (uuidMap s) item;
          params = article_params opts bookId' bookPath' articleUrlPrefix (uuidMap s) item;
          s1 = s\<lparr>totalArticleCount := totalArticleCount s + 1,
                 trace := trace s @ [DownloadArticle params]\<rparr>
      in case downloadArticle w params of
           Resolved b \<Rightarrow> register w item progressItem True s1
         | Rejected msg \<Rightarrow>
             register w item progressItem False
               (s1\<lparr>errArticleCount := errArticleCount s1 + 1,
                   errArticleInfo := errArticleInfo s1 @
                     [\<lparr>articleUrl = arg_articleUrl params, errItem = progressItem,
                       errMsg = msg\<rparr>]\<rparr>))"

text \<open>
  The body of \<^verbatim>\<open>for (let i = 0; i < total; i++)\<close> for \<^verbatim>\<open>item = tocList[i]\<close>:
  \<^verbatim>\<open>if (typeof item.type !== 'string') continue
  if (uuidMap.get(item.uuid)) continue
  const itemType = item.type.toLocaleLowerCase()
  if (itemType === 'title' || item['child_uuid'] !== '' || itemType === 'link') { ... }
  else if (item.url) { ... }\<close>
\<close>

definition visit ::
  "world \<Rightarrow> options \<Rightarrow> int \<Rightarrow> jsstring \<Rightarrow> jsstring \<Rightarrow> toc \<Rightarrow> run_state \<Rightarrow> outcome option" where
  "visit w opts bookId' bookPath' articleUrlPrefix item s =
     (case type item of
        None \<Rightarrow> Some (Returned s)
      | Some ty \<Rightarrow>
          if uuidMap s (uuid item) \<noteq> None then Some (Returned s)
          else let itemType = toLocaleLowerCase w ty
               in if itemType = js ''title'' \<or> child_uuid item \<noteq> [] \<or> itemType = js ''link''
                  then visit_container w bookPath' item itemType s
                  else if url item \<noteq> []
                  then Some (visit_article w opts bookId' bookPath' articleUrlPrefix item s)
                  else Some (Returned s))"

text \<open>The loop over \<^verbatim>\<open>tocList\<close>; an error thrown in the body leaves the loop.\<close>

fun traverse ::
  "world \<Rightarrow> options \<Rightarrow> int \<Rightarrow> jsstring \<Rightarrow> jsstring \<Rightarrow> toc list \<Rightarrow> run_state \<Rightarrow> outcome option" where
  "traverse w opts bookId' bookPath' articleUrlPrefix [] s = Some (Returned s)"
| "traverse w opts bookId' bookPath' articleUrlPrefix (item # rest) s =
     (case visit w opts bookId' bookPath' articleUrlPrefix item s of
        None \<Rightarrow> None
      | Some (Threw msg s') \<Rightarrow> Some (Threw msg s')
      | Some (Returned s') \<Rightarrow> traverse w opts bookId' bookPath' articleUrlPrefix rest s')"

text \<open>
  The replay of the recorded items into the index:
  \<^verbatim>\<open>if (progressBar.isDownloadInterrupted) {
    progressBar.progressInfo.forEach(item => { uuidMap.set(item.toc.uuid, item) })
  }\<close>
\<close>

definition restore :: "progress_bar \<Rightarrow> index" where
  "restore pb =
     (if isDownloadInterrupted pb
      then foldl (\<lambda>m item. m(uuid (toc item) \<mapsto> item)) Map.empty (progressInfo pb)
      else Map.empty)"

text \<open>The two reports after the loop (lines 266 to 282).\<close>

definition report :: "run_state \<Rightarrow> event list" where
  "report s =
     (if warnArticleCount s > 0
      then Log LinkHeader # map (\<lambda>p. Log (LinkLine (path p) (url (toc p)))) (warnArticleInfo s)
      else []) @
     (if errArticleCount s > 0
      then Log (FailHeader (totalArticleCount s) (errArticleCount s)) #
           concat (map (\<lambda>e. [Log (FailLine (path (errItem e)) (articleUrl e)),
                              Log (FailReason (errMsg e))]) (errArticleInfo s)) @
           [Log FailFooter]
      else [])"

text \<open>The state before anything has happened.\<close>

definition initial :: run_state where
  "initial = \<lparr>uuidMap = Map.empty, errArticleCount = 0, totalArticleCount = 0,
     warnArticleCount = 0, errArticleInfo = [], warnArticleInfo = [],
     progressBar = \<lparr>curr = 0, isDownloadInterrupted = False, progressInfo = []\<rparr>,
     trace = []\<rparr>"

text \<open>
  \<^verbatim>\<open>const bookPath = `${options.distDir}/${bookName ? fixPath(bookName) : bookId}`\<close>
\<close>

definition book_path :: "options \<Rightarrow> knowledge_base_info \<Rightarrow> int \<Rightarrow> jsstring" where
  "book_path opts info bookId' =
     distDir opts @ js ''/'' @
       (case bookName info of
          None \<Rightarrow> numberToString bookId'
        | Some name \<Rightarrow> if name \<noteq> [] then fixPath name else numberToString bookId')"

text \<open>
  The end of \<^verbatim>\<open>main\<close> (lines 263 to 300): the reports, the summary, the last log lines.
\<close>

definition finish ::
  "world \<Rightarrow> knowledge_base_info \<Rightarrow> jsstring \<Rightarrow> nat \<Rightarrow> run_state \<Rightarrow> outcome" where
  "finish w info bookPath total' s5 =
     (let s6 = s5\<lparr>trace := trace s5 @ report s5 @
                  [GenFile bookPath (bookName info) (bookDesc info) (uuidMap s5)]\<rparr>
      in case genFile w bookPath (bookName info) (bookDesc info) (uuidMap s5) of
           Rejected msg \<Rightarrow> Threw msg s6
         | Resolved u \<Rightarrow>
             Returned (s6\<lparr>trace := trace s6 @
                         [Log (SummaryDone (cwd w) bookPath)] @
                         (if curr (progressBar s6) = total'
                          then [Log (Done (cwd w) bookPath)] else [])\<rparr>))"

text \<open>
  The state in which the loop is entered (lines 163 to 179): the index holds the recorded
  items of an interrupted run, the counters are zero and the lists are empty.
\<close>

definition start :: "jsstring \<Rightarrow> nat \<Rightarrow> progress_bar \<Rightarrow> run_state" where
  "start bookPath total' pb =
     initial\<lparr>uuidMap := restore pb, progressBar := pb,
       trace := [Mkdir bookPath, InitProgress bookPath total']\<rparr>"

text \<open>
  \<^verbatim>\<open>main\<close> from line 151 on, for a book identifier and a table of contents that passed the
  two checks:
  \<^verbatim>\<open>await mkdir(bookPath, {recursive: true})
  const total = tocList.length
  const progressBar = new ProgressBar(bookPath, total)
  await progressBar.init()
  if (progressBar.curr === total) { ...; return }\<close>
  and then the loop and the end of \<^verbatim>\<open>main\<close>.
\<close>

definition download ::
  "world \<Rightarrow> jsstring \<Rightarrow> options \<Rightarrow> knowledge_base_info \<Rightarrow> int \<Rightarrow> toc list \<Rightarrow> outcome option" where
  "download w url' opts info bookId' tocList' =
     (let bookPath = book_path opts info bookId';
          total' = length tocList'
      in case mkdir w bookPath of
           Rejected msg \<Rightarrow> Some (Threw msg (initial\<lparr>trace := [Mkdir bookPath]\<rparr>))
         | Resolved u \<Rightarrow>
            (case init w bookPath total' of
               Rejected msg \<Rightarrow>
                 Some (Threw msg
                   (initial\<lparr>trace := [Mkdir bookPath, InitProgress bookPath total']\<rparr>))
             | Resolved pb \<Rightarrow>
                 if curr pb = total'
                 then Some (Returned
                        (initial\<lparr>progressBar := pb,
                           trace := [Mkdir bookPath, InitProgress bookPath total',
                                     Log (AlreadyDone (cwd w) bookPath)]\<rparr>))
                 else (case traverse w opts bookId' bookPath
                              (articleUrlPrefixOf w url' (bookSlug info)) tocList'
                              (start bookPath total' pb) of
                         None \<Rightarrow> None
                       | Some (Threw msg s5) \<Rightarrow> Some (Threw msg s5)
                       | Some (Returned s5) \<Rightarrow> Some (finish w info bookPath total' s5))))"

text \<open>
  \<^verbatim>\<open>async function main(url: string, options: IOptions) {
    const {bookId, tocList, bookName, bookDesc, bookSlug} = await getKnowledgeBaseInfo(url)
    if (!bookId) throw new Error('No found book id')
    if (!tocList || tocList.length === 0) throw new Error('No found toc list')
    ...\<close>
\<close>

definition main :: "world \<Rightarrow> jsstring \<Rightarrow> options \<Rightarrow> outcome option" where
  "main w url' opts =
     (case getKnowledgeBaseInfo w url' of
        Rejected msg \<Rightarrow> Some (Threw msg initial)
      | Resolved info \<Rightarrow>
          (case bookId info of
             None \<Rightarrow> Some (Threw (js ''No found book id'') initial)
           | Some bookId' \<Rightarrow>
               if bookId' = 0 then Some (Threw (js ''No found book id'') initial)
               else (case tocList info of
                       None \<Rightarrow> Some (Threw (js ''No found toc list'') initial)
                     | Some tocList' \<Rightarrow>
                         if length tocList' = 0
                         then Some (Threw (js ''No found toc list'') initial)
                         else download w url' opts info bookId' tocList')))"


section \<open>Notions used in the statements\<close>

text \<open>The state in which a run ended.\<close>

fun state_of :: "outcome \<Rightarrow> run_state" where
  "state_of (Returned s) = s"
| "state_of (Threw msg s) = s"

text \<open>The number of calls of the summary generator in a sequence of calls.\<close>

fun is_GenFile :: "event \<Rightarrow> bool" where
  "is_GenFile (GenFile bookPath' name desc m) = True"
| "is_GenFile e = False"

fun is_Log :: "event \<Rightarrow> bool" where
  "is_Log (Log l) = True"
| "is_Log e = False"

definition genFile_calls :: "event list \<Rightarrow> nat" where
  "genFile_calls tr = length (filter is_GenFile tr)"

text \<open>The number of calls of the summary generator in a run that ended.\<close>

definition summary_calls :: "outcome option \<Rightarrow> nat option" where
  "summary_calls = map_option (genFile_calls \<circ> trace \<circ> state_of)"



text \<open>
  \<open>registered_chain m t k = Some ts\<close>: following the \<^verbatim>\<open>parent_uuid\<close> references from \<open>t\<close>
  through the index \<open>m\<close> passes exactly \<open>k\<close> registered ancestors and then meets a uuid that
  is not in the index; \<open>ts\<close> lists these ancestors from the topmost one down to \<open>t\<close> itself.
\<close>

fun registered_chain :: "index \<Rightarrow> toc \<Rightarrow> nat \<Rightarrow> toc list option" where
  "registered_chain m t 0 = (case m (parent_uuid t) of None \<Rightarrow> Some [t] | Some p \<Rightarrow> None)"
| "registered_chain m t (Suc k) =
     (case m (parent_uuid t) of
        None \<Rightarrow> None
      | Some p \<Rightarrow>
          (case registered_chain m (toc p) k of None \<Rightarrow> None | Some ts \<Rightarrow> Some (ts @ [t])))"

text \<open>
  An index over a table of contents \<open>es\<close> holds entries of \<open>es\<close>, each under its own uuid.
\<close>

definition keyed_by_uuid :: "toc list \<Rightarrow> index \<Rightarrow> bool" where
  "keyed_by_uuid es m \<longleftrightarrow> (\<forall>u p. m u = Some p \<longrightarrow> toc p \<in> set es \<and> uuid (toc p) = u)"

text \<open>
  The parent references of a table of contents have no cycle: some rank on uuids is smaller
  at the parent entry than at the entry, whatever the order of the entries.
\<close>

definition ranked :: "(jsstring \<Rightarrow> nat) \<Rightarrow> toc list \<Rightarrow> bool" where
  "ranked rank es \<longleftrightarrow>
     (\<forall>e\<in>set es. \<forall>e'\<in>set es. parent_uuid e = uuid e' \<longrightarrow> rank (uuid e') < rank (uuid e))"

text \<open>
  The well-formedness of a progress item: as many titles as uuids, the entry's own uuid
  last, and the path the titles joined by a slash.
\<close>

definition wf_item :: "progress_item \<Rightarrow> bool" where
  "wf_item p \<longleftrightarrow>
     length (pathTitleList p) = length (pathIdList p) \<and>
     pathIdList p \<noteq> [] \<and> last (pathIdList p) = uuid (toc p) \<and>
     path p = join (js ''/'') (pathTitleList p)"


section \<open>Sample inputs\<close>

text \<open>Lower case for the letters A to Z, which is what the built-in does on ASCII input.\<close>

definition ascii_lower :: "jsstring \<Rightarrow> jsstring" where
  "ascii_lower = map (\<lambda>c. if 0x41 \<le> c \<and> c \<le> 0x5A then c + 0x20 else c)"

text \<open>
  Modelled from the spec: \<^verbatim>\<open>ProgressBar.updateProgress\<close> (the class is not among the sources).
  The spec has \<^verbatim>\<open>append(item, success)\<close> record the item and increment the count of
  completed entries, whatever the flag.
\<close>

definition spec_updateProgress ::
  "progress_bar \<Rightarrow> progress_item \<Rightarrow> bool \<Rightarrow> progress_bar promise" where
  "spec_updateProgress pb item isSuccess =
     Resolved (pb\<lparr>curr := curr pb + 1, progressInfo := progressInfo pb @ [item]\<rparr>)"

definition fresh :: progress_bar where
  "fresh = \<lparr>curr = 0, isDownloadInterrupted = False, progressInfo = []\<rparr>"

text \<open>The sample scenario of the spec: a title \<^verbatim>\<open>Intro\<close> with one article \<^verbatim>\<open>Hello\<close>.\<close>

definition intro :: toc where
  "intro = \<lparr>type = Some (js ''TITLE''), uuid = js ''1'', parent_uuid = [], child_uuid = [],
     title = js ''Intro'', url = []\<rparr>"

definition hello :: toc where
  "hello = \<lparr>type = Some (js ''DOC''), uuid = js ''2'', parent_uuid = js ''1'', child_uuid = [],
     title = js ''Hello'', url = js ''abc''\<rparr>"

definition demo_book :: knowledge_base_info where
  "demo_book = \<lparr>bookId = Some 7, bookSlug = Some (js ''demo''), tocList = Some [intro, hello],
     bookName = Some (js ''Demo''), bookDesc = Some []\<rparr>"

definition demo_opts :: options where
  "demo_opts = \<lparr>distDir = js ''out'', ignoreImg = True\<rparr>"

definition demo_url :: jsstring where
  "demo_url = js ''https://www.yuque.com/u/demo''"

text \<open>A world in which every call succeeds and no progress has been recorded.\<close>

definition demo :: world where
  "demo = \<lparr>getKnowledgeBaseInfo = (\<lambda>u. Resolved demo_book),
     mkdir = (\<lambda>p. Resolved ()),
     init = (\<lambda>p n. Resolved fresh),
     updateProgress = spec_updateProgress,
     downloadArticle = (\<lambda>p. Resolved True),
     genFile = (\<lambda>p name desc m. Resolved ()),
     toLocaleLowerCase = ascii_lower,
     articleUrlPrefixOf = (\<lambda>u slug. u),
     cwd = js ''/home''\<rparr>"

text \<open>The same world when every article request fails.\<close>

definition offline :: world where
  "offline = demo\<lparr>downloadArticle := (\<lambda>p. Rejected (js ''timeout''))\<rparr>"

text \<open>A table of contents whose first title names itself as its parent.\<close>

definition self_parent :: toc where
  "self_parent = \<lparr>type = Some (js ''TITLE''), uuid = js ''a'', parent_uuid = js ''a'',
     child_uuid = [], title = js ''A'', url = []\<rparr>"

definition child :: toc where
  "child = \<lparr>type = Some (js ''TITLE''), uuid = js ''b'', parent_uuid = js ''a'',
     child_uuid = [], title = js ''B'', url = []\<rparr>"

definition cyclic :: world where
  "cyclic = demo\<lparr>getKnowledgeBaseInfo :=
     (\<lambda>u. Resolved (demo_book\<lparr>tocList := Some [self_parent, child]\<rparr>))\<rparr>"


text \<open>The run of the sample scenario in \<open>demo\<close>, state by state.\<close>

definition item_intro :: progress_item where
  "item_intro = \<lparr>path = js ''Intro'', pathTitleList = [js ''Intro''], pathIdList = [js ''1''],
     toc = intro\<rparr>"

definition item_hello :: progress_item where
  "item_hello = \<lparr>path = js ''Intro/Hello.md'', pathTitleList = [js ''Intro'', js ''Hello.md''],
     pathIdList = [js ''1'', js ''2''], toc = hello\<rparr>"

definition params_hello :: download_params where
  "params_hello = \<lparr>arg_bookId = 7, arg_itemUrl = js ''abc'',
     arg_savePath = js ''out/Demo/Intro'', arg_saveFilePath = js ''out/Demo/Intro/Hello.md'',
     arg_uuid = js ''2'', arg_articleUrl = js ''https://www.yuque.com/u/demo/abc'',
     arg_articleTitle = js ''Hello'', arg_ignoreImg = True\<rparr>"

definition after_intro :: run_state where
  "after_intro = \<lparr>uuidMap = [js ''1'' \<mapsto> item_intro],
     errArticleCount = 0, totalArticleCount = 0, warnArticleCount = 0,
     errArticleInfo = [], warnArticleInfo = [],
     progressBar = \<lparr>curr = 1, isDownloadInterrupted = False, progressInfo = [item_intro]\<rparr>,
     trace = [Mkdir (js ''out/Demo''), InitProgress (js ''out/Demo'') 2,
              Mkdir (js ''out/Demo/Intro''), UpdateProgress item_intro True]\<rparr>"

definition after_hello :: run_state where
  "after_hello = after_intro\<lparr>uuidMap := [js ''1'' \<mapsto> item_intro, js ''2'' \<mapsto> item_hello],
     totalArticleCount := 1,
     progressBar := \<lparr>curr = 2, isDownloadInterrupted = False,
                      progressInfo = [item_intro, item_hello]\<rparr>,
     trace := trace after_intro @ [DownloadArticle params_hello, UpdateProgress item_hello True]\<rparr>"

text \<open>The state after \<^verbatim>\<open>Hello\<close> when its request fails with the message \<^verbatim>\<open>timeout\<close>.\<close>

definition after_failed_hello :: run_state where
  "after_failed_hello = after_intro\<lparr>
     uuidMap := [js ''1'' \<mapsto> item_intro, js ''2'' \<mapsto> item_hello],
     errArticleCount := 1, totalArticleCount := 1,
     errArticleInfo := [\<lparr>articleUrl = js ''https://www.yuque.com/u/demo/abc'',
                          errItem = item_hello, errMsg = js ''timeout''\<rparr>],
     progressBar := \<lparr>curr = 2, isDownloadInterrupted = False,
                      progressInfo = [item_intro, item_hello]\<rparr>,
     trace := trace after_intro @ [DownloadArticle params_hello, UpdateProgress item_hello False]\<rparr>"

text \<open>The state at the end of the run.\<close>

definition demo_final :: run_state where
  "demo_final = after_hello\<lparr>trace := trace after_hello @
     [GenFile (js ''out/Demo'') (Some (js ''Demo'')) (Some []) (uuidMap after_hello),
      Log (SummaryDone (js ''/home'') (js ''out/Demo'')),
      Log (Done (js ''/home'') (js ''out/Demo''))]\<rparr>"

text \<open>The world of a second run: the progress bar loads what the first run recorded.\<close>

definition rerun :: world where
  "rerun = demo\<lparr>init := (\<lambda>p n. Resolved (progressBar after_hello))\<rparr>"

text \<open>A link below \<^verbatim>\<open>Intro\<close>.\<close>

definition link :: toc where
  "link = \<lparr>type = Some (js ''LINK''), uuid = js ''3'', parent_uuid = js ''1'', child_uuid = [],
     title = js ''Site'', url = js ''https://example.org''\<rparr>"




text \<open>A title, a title below it, and an article below that.\<close>

definition part_a :: toc where
  "part_a = \<lparr>type = Some (js ''TITLE''), uuid = js ''a'', parent_uuid = [], child_uuid = js ''b'',
     title = js ''A'', url = []\<rparr>"

definition part_b :: toc where
  "part_b = \<lparr>type = Some (js ''TITLE''), uuid = js ''b'', parent_uuid = js ''a'',
     child_uuid = js ''x'', title = js ''B'', url = []\<rparr>"

definition page_x :: toc where
  "page_x = \<lparr>type = Some (js ''DOC''), uuid = js ''x'', parent_uuid = js ''b'', child_uuid = [],
     title = js ''X'', url = js ''x1''\<rparr>"






section \<open>The path sanitizer\<close>

lemma js_underscore: "js ''_'' = [0x5F]"
  by (simp add: js_def)

lemma replace_all_single:
  "replace_all cls [x] s = map (\<lambda>c. if cls c then x else c) s"
  by (induction s) (simp_all add: replace_all_def)

lemma replace_first_delete:
  "replace_first cls [] s = takeWhile (\<lambda>c. \<not> cls c) s @ drop 1 (dropWhile (\<lambda>c. \<not> cls c) s)"
  by (induction s) simp_all

text \<open>
  C8. For every string, \<^verbatim>\<open>fixPath\<close> replaces each backslash, slash, colon, asterisk, question
  mark, double quote, angle bracket, vertical bar, line feed and carriage return by an
  underscore (code unit 95) and then removes the first whitespace character of the result,
  keeping everything before it and everything after it, later whitespace included. The
  empty string is the case of an empty list. The function is a total function of its argument
  alone.
\<close>

theorem fixPath_replaces_then_drops_first_whitespace:
  "fixPath s =
     (let r = map (\<lambda>c. if c \<in> {0x5C, 0x2F, 0x3A, 0x2A, 0x3F, 0x22, 0x3C, 0x3E, 0x7C, 0x0A, 0x0D}
                         then 0x5F else c) s
      in takeWhile (\<lambda>c. \<not> whitespace c) r @ drop 1 (dropWhile (\<lambda>c. \<not> whitespace c) r))
   \<and> fixPath [] = []"
  by (simp add: fixPath_def js_underscore replace_all_single replace_first_delete dirNameReg_def
       Let_def del: insert_iff)

theorem fixPath_example: "fixPath (js ''a/b c d'') = js ''a_bc d''"
  using fixPath_replaces_then_drops_first_whitespace [of "js ''a/b c d''"]
  by (simp add: js_def whitespace_def)

lemma fixPath_ideographic_space: "fixPath [0x41, 0x3000, 0x42, 0x20] = [0x41, 0x42, 0x20]"
  by (simp add: fixPath_def replace_all_single replace_first_delete js_def dirNameReg_def
       whitespace_def)


section \<open>The ancestor walk\<close>

lemma ancestor_walk_None: "ancestor_walk m None a b = Some (a, b)"
  by (simp add: ancestor_walk.simps)

lemma ancestor_walk_Some:
  "ancestor_walk m (Some t) a b =
     ancestor_walk m (case m (parent_uuid t) of Some p \<Rightarrow> Some (toc p) | None \<Rightarrow> None)
       (fixPath (title t) # a) (uuid t # b)"
  by (subst ancestor_walk.simps) simp

lemma registered_chain_length:
  "registered_chain m t k = Some ts \<Longrightarrow> length ts = Suc k \<and> last ts = t"
  by (induction k arbitrary: t ts) (auto split: option.splits)

lemma ancestor_walk_chain:
  "registered_chain m t k = Some ts \<Longrightarrow>
   ancestor_walk m (Some t) a b = Some (map (\<lambda>x. fixPath (title x)) ts @ a, map uuid ts @ b)"
proof (induction k arbitrary: t ts a b)
  case 0
  then have "m (parent_uuid t) = None" and "ts = [t]"
    by (auto split: option.splits)
  then show ?case
    by (simp add: ancestor_walk_Some ancestor_walk_None)
next
  case (Suc k)
  then obtain p ts' where p: "m (parent_uuid t) = Some p"
    and ts': "registered_chain m (toc p) k = Some ts'" and ts: "ts = ts' @ [t]"
    by (auto split: option.splits)
  have "ancestor_walk m (Some t) a b =
        ancestor_walk m (Some (toc p)) (fixPath (title t) # a) (uuid t # b)"
    by (subst ancestor_walk_Some) (simp add: p)
  also have "\<dots> = Some (map (\<lambda>x. fixPath (title x)) ts' @ fixPath (title t) # a,
                         map uuid ts' @ uuid t # b)"
    by (rule Suc.IH [OF ts'])
  finally show ?case by (simp add: ts)
qed

lemma ancestor_walk_returns:
  "ancestor_walk m ti a b = Some r \<Longrightarrow> \<forall>t. ti = Some t \<longrightarrow> (\<exists>k. registered_chain m t k \<noteq> None)"
proof (rule ancestor_walk.raw_induct
    [where P = "\<lambda>m ti a b r. \<forall>t. ti = Some t \<longrightarrow> (\<exists>k. registered_chain m t k \<noteq> None)"])
  fix walk' :: "index \<Rightarrow> toc option \<Rightarrow> jsstring list \<Rightarrow> jsstring list
      \<Rightarrow> (jsstring list \<times> jsstring list) option"
    and m :: index and ti :: "toc option" and a b :: "jsstring list"
    and r :: "jsstring list \<times> jsstring list"
  assume IH: "\<And>m ti a b r. walk' m ti a b = Some r \<Longrightarrow>
      \<forall>t. ti = Some t \<longrightarrow> (\<exists>k. registered_chain m t k \<noteq> None)"
    and step: "(case ti of None \<Rightarrow> Some (a, b)
      | Some t \<Rightarrow> walk' m (case m (parent_uuid t) of Some p \<Rightarrow> Some (toc p) | None \<Rightarrow> None)
          (fixPath (title t) # a) (uuid t # b)) = Some r"
  show "\<forall>t. ti = Some t \<longrightarrow> (\<exists>k. registered_chain m t k \<noteq> None)"
  proof (intro allI impI)
    fix t assume ti: "ti = Some t"
    show "\<exists>k. registered_chain m t k \<noteq> None"
    proof (cases "m (parent_uuid t)")
      case None
      then have "registered_chain m t 0 \<noteq> None" by simp
      then show ?thesis ..
    next
      case (Some p)
      with step ti have "walk' m (Some (toc p)) (fixPath (title t) # a) (uuid t # b) = Some r"
        by simp
      from IH [OF this] obtain k where "registered_chain m (toc p) k \<noteq> None"
        by blast
      with Some have "registered_chain m t (Suc k) \<noteq> None"
        by (auto split: option.splits)
      then show ?thesis ..
    qed
  qed
qed

lemma ancestor_walk_diverges:
  assumes "\<forall>k. registered_chain m t k = None"
  shows "ancestor_walk m (Some t) a b = None"
proof (cases "ancestor_walk m (Some t) a b")
  case None
  then show ?thesis .
next
  case (Some r)
  from ancestor_walk_returns [OF this] assms show ?thesis by auto
qed

lemma self_parent_no_chain:
  "m (parent_uuid t) = Some p \<Longrightarrow> toc p = t \<Longrightarrow> registered_chain m t k = None"
  by (induction k) simp_all

section \<open>The loop body\<close>

lemma register_Resolved:
  "updateProgress w (progressBar s) pi f = Resolved pb \<Longrightarrow>
   register w item pi f s =
     Returned (s\<lparr>uuidMap := (uuidMap s)(uuid item \<mapsto> pi),
                 trace := trace s @ [UpdateProgress pi f], progressBar := pb\<rparr>)"
  by (simp add: register_def)

lemma register_state:
  "uuidMap (state_of (register w item pi f s)) = (uuidMap s)(uuid item \<mapsto> pi)"
  "trace (state_of (register w item pi f s)) = trace s @ [UpdateProgress pi f]"
  "totalArticleCount (state_of (register w item pi f s)) = totalArticleCount s"
  "errArticleCount (state_of (register w item pi f s)) = errArticleCount s"
  "warnArticleCount (state_of (register w item pi f s)) = warnArticleCount s"
  "errArticleInfo (state_of (register w item pi f s)) = errArticleInfo s"
  "warnArticleInfo (state_of (register w item pi f s)) = warnArticleInfo s"
  by (simp_all add: register_def Let_def split: promise.splits)

lemma visit_not_string:
  "type item = None \<Longrightarrow> visit w opts b bp pre item s = Some (Returned s)"
  by (simp add: visit_def)

lemma visit_indexed:
  "uuidMap s (uuid item) \<noteq> None \<Longrightarrow> visit w opts b bp pre item s = Some (Returned s)"
  by (simp add: visit_def split: option.splits)

lemma visit_container_branch:
  assumes "type item = Some ty" and "uuidMap s (uuid item) = None"
    and "toLocaleLowerCase w ty = js ''title'' \<or> child_uuid item \<noteq> [] \<or>
         toLocaleLowerCase w ty = js ''link''"
  shows "visit w opts b bp pre item s = visit_container w bp item (toLocaleLowerCase w ty) s"
  using assms by (simp add: visit_def)

lemma visit_article_branch:
  assumes "type item = Some ty" and "uuidMap s (uuid item) = None"
    and "toLocaleLowerCase w ty \<noteq> js ''title''" and "child_uuid item = []"
    and "toLocaleLowerCase w ty \<noteq> js ''link''" and "url item \<noteq> []"
  shows "visit w opts b bp pre item s = Some (visit_article w opts b bp pre item s)"
  using assms by (simp add: visit_def)

lemma visit_nothing_branch:
  assumes "type item = Some ty"
    and "toLocaleLowerCase w ty \<noteq> js ''title''" and "child_uuid item = []"
    and "toLocaleLowerCase w ty \<noteq> js ''link''" and "url item = []"
  shows "visit w opts b bp pre item s = Some (Returned s)"
  using assms by (simp add: visit_def)

lemma visit_article_state:
  "uuidMap (state_of (visit_article w opts b bp pre item s)) =
     (uuidMap s)(uuid item \<mapsto> article_item (uuidMap s) item)"
  "totalArticleCount (state_of (visit_article w opts b bp pre item s)) = totalArticleCount s + 1"
  "trace (state_of (visit_article w opts b bp pre item s)) =
     trace s @ [DownloadArticle (article_params opts b bp pre (uuidMap s) item),
                UpdateProgress (article_item (uuidMap s) item)
                  (downloadArticle w (article_params opts b bp pre (uuidMap s) item) \<noteq>
                     Rejected (case downloadArticle w (article_params opts b bp pre (uuidMap s) item)
                               of Rejected msg \<Rightarrow> msg | Resolved x \<Rightarrow> []))]"
  by (simp_all add: visit_article_def register_state Let_def split: promise.splits)

lemma visit_article_failed:
  assumes "downloadArticle w (article_params opts b bp pre (uuidMap s) item) = Rejected msg"
    and "updateProgress w (progressBar s) (article_item (uuidMap s) item) False = Resolved pb"
  shows "visit_article w opts b bp pre item s =
     Returned (s\<lparr>uuidMap := (uuidMap s)(uuid item \<mapsto> article_item (uuidMap s) item),
       errArticleCount := errArticleCount s + 1,
       totalArticleCount := totalArticleCount s + 1,
       errArticleInfo := errArticleInfo s @
         [\<lparr>articleUrl = pre @ js ''/'' @ url item, errItem = article_item (uuidMap s) item,
           errMsg = msg\<rparr>],
       progressBar := pb,
       trace := trace s @ [DownloadArticle (article_params opts b bp pre (uuidMap s) item),
                           UpdateProgress (article_item (uuidMap s) item) False]\<rparr>)"
  using assms
  by (simp add: visit_article_def register_def Let_def article_params_def split: prod.splits)

lemma visit_article_ok:
  assumes "downloadArticle w (article_params opts b bp pre (uuidMap s) item) = Resolved x"
    and "updateProgress w (progressBar s) (article_item (uuidMap s) item) True = Resolved pb"
  shows "visit_article w opts b bp pre item s =
     Returned (s\<lparr>uuidMap := (uuidMap s)(uuid item \<mapsto> article_item (uuidMap s) item),
       totalArticleCount := totalArticleCount s + 1,
       progressBar := pb,
       trace := trace s @ [DownloadArticle (article_params opts b bp pre (uuidMap s) item),
                           UpdateProgress (article_item (uuidMap s) item) True]\<rparr>)"
  using assms
  by (simp add: visit_article_def register_def Let_def)

lemma visit_container_chain:
  assumes "registered_chain (uuidMap s) item k = Some ts"
  shows "visit_container w bp item ity s =
     (let titles = map (\<lambda>x. fixPath (title x)) ts;
          pi = progress_item_of titles (map uuid ts) item
      in if ity = js ''link''
         then Some (register w item pi False
                (s\<lparr>warnArticleCount := warnArticleCount s + 1,
                   warnArticleInfo := warnArticleInfo s @ [pi]\<rparr>))
         else (case mkdir w (bp @ js ''/'' @ join (js ''/'') titles) of
                 Rejected msg \<Rightarrow>
                   Some (Threw msg (s\<lparr>trace := trace s @
                     [Mkdir (bp @ js ''/'' @ join (js ''/'') titles)]\<rparr>))
               | Resolved u \<Rightarrow>
                   Some (register w item pi True (s\<lparr>trace := trace s @
                     [Mkdir (bp @ js ''/'' @ join (js ''/'') titles)]\<rparr>))))"
  using ancestor_walk_chain [OF assms, of "[]" "[]"]
  by (simp add: visit_container_def Let_def split: promise.splits)



text \<open>
  C2. When the request for an article throws, the visit of the entry returns normally: the
  error list gains the article URL, the item and the message, both article counters grow by
  one, the item is put into the index under the uuid of the entry, the progress bar is
  updated with the flag \<open>False\<close>, and the loop goes on with the next entry. Nothing else in the
  state changes, and the index after the visit is the one a successful request would have
  left, so no other entry is affected.
\<close>

theorem failed_fetch_is_recorded_and_loop_continues:
  assumes "type item = Some ty" and "uuidMap s (uuid item) = None"
    and "toLocaleLowerCase w ty \<noteq> js ''title''" and "toLocaleLowerCase w ty \<noteq> js ''link''"
    and "child_uuid item = []" and "url item \<noteq> []"
    and "downloadArticle w (article_params opts b bp pre (uuidMap s) item) = Rejected msg"
    and "updateProgress w (progressBar s) (article_item (uuidMap s) item) False = Resolved pb"
  shows "let progressItem = article_item (uuidMap s) item;
             s' = s\<lparr>uuidMap := (uuidMap s)(uuid item \<mapsto> progressItem),
                    errArticleCount := errArticleCount s + 1,
                    totalArticleCount := totalArticleCount s + 1,
                    errArticleInfo := errArticleInfo s @
                      [\<lparr>articleUrl = pre @ js ''/'' @ url item, errItem = progressItem,
                        errMsg = msg\<rparr>],
                    progressBar := pb,
                    trace := trace s @
                      [DownloadArticle (article_params opts b bp pre (uuidMap s) item),
                       UpdateProgress progressItem False]\<rparr>
         in visit w opts b bp pre item s = Some (Returned s') \<and>
            traverse w opts b bp pre (item # rest) s = traverse w opts b bp pre rest s' \<and>
            (\<forall>w'. uuidMap (state_of (visit_article w' opts b bp pre item s)) = uuidMap s')"
  using assms
  by (simp add: visit_article_branch visit_article_failed visit_article_state Let_def)

lemma article_item_fields:
  "pathTitleList (article_item m item) =
     (case m (parent_uuid item) of None \<Rightarrow> [] | Some p \<Rightarrow> pathTitleList p) @
     [fixPath (title item) @ js ''.md'']"
  "pathIdList (article_item m item) =
     (case m (parent_uuid item) of None \<Rightarrow> [] | Some p \<Rightarrow> pathIdList p) @ [uuid item]"
  "path (article_item m item) = join (js ''/'') (pathTitleList (article_item m item))"
  "toc (article_item m item) = item"
  by (simp_all add: article_item_def preItem_def progress_item_of_def Let_def split: option.splits)

lemma article_params_fields:
  "arg_saveFilePath (article_params opts b bp pre m item) =
     bp @ js ''/'' @ path (article_item m item)"
  "arg_savePath (article_params opts b bp pre m item) =
     bp @ js ''/'' @ (case m (parent_uuid item) of None \<Rightarrow> [] | Some p \<Rightarrow> path p)"
  "arg_itemUrl (article_params opts b bp pre m item) = url item"
  "arg_articleUrl (article_params opts b bp pre m item) = pre @ js ''/'' @ url item"
  by (simp_all add: article_params_def preItem_def Let_def split: option.splits)

lemma article_path_rule:
  assumes "type item = Some ty" and "uuidMap s (uuid item) = None"
    and "toLocaleLowerCase w ty \<noteq> js ''title''" and "toLocaleLowerCase w ty \<noteq> js ''link''"
    and "child_uuid item = []" and "url item \<noteq> []"
  shows "let titles = (case uuidMap s (parent_uuid item) of None \<Rightarrow> []
                        | Some parent \<Rightarrow> pathTitleList parent) @
                      [fixPath (title item) @ js ''.md''];
             r = visit_article w opts bid bp pre item s;
             params = article_params opts bid bp pre (uuidMap s) item
         in visit w opts bid bp pre item s = Some r \<and>
            map_option pathTitleList (uuidMap (state_of r) (uuid item)) = Some titles \<and>
            map_option path (uuidMap (state_of r) (uuid item)) = Some (join (js ''/'') titles) \<and>
            DownloadArticle params \<in> set (trace (state_of r)) \<and>
            arg_saveFilePath params = bp @ js ''/'' @ join (js ''/'') titles \<and>
            (uuidMap s (parent_uuid item) = None \<longrightarrow>
               join (js ''/'') titles = fixPath (title item) @ js ''.md'')"
  using assms
  by (simp add: visit_article_branch visit_article_state article_item_fields
        article_params_fields Let_def)

lemma visit_title:
  assumes "type t = Some ty" and "toLocaleLowerCase w ty = js ''title''"
    and "uuidMap s (uuid t) = None"
    and "registered_chain (uuidMap s) t k = Some ts"
    and "mkdir w (bp @ js ''/'' @ join (js ''/'') (map (\<lambda>x. fixPath (title x)) ts)) = Resolved u"
    and "updateProgress w (progressBar s)
           (progress_item_of (map (\<lambda>x. fixPath (title x)) ts) (map uuid ts) t) True = Resolved pb"
  shows "visit w opts b bp pre t s =
     Some (Returned (s\<lparr>
       uuidMap := (uuidMap s)(uuid t \<mapsto>
         progress_item_of (map (\<lambda>x. fixPath (title x)) ts) (map uuid ts) t),
       trace := trace s @
         [Mkdir (bp @ js ''/'' @ join (js ''/'') (map (\<lambda>x. fixPath (title x)) ts)),
          UpdateProgress (progress_item_of (map (\<lambda>x. fixPath (title x)) ts) (map uuid ts) t) True],
       progressBar := pb\<rparr>))"
proof -
  have ne: "js ''title'' \<noteq> js ''link''" by (simp add: js_def)
  have "visit w opts b bp pre t s = visit_container w bp t (js ''title'') s"
    using visit_container_branch [OF assms(1,3), of w opts b bp pre] assms(2) by simp
  also have "\<dots> = Some (Returned (s\<lparr>
       uuidMap := (uuidMap s)(uuid t \<mapsto>
         progress_item_of (map (\<lambda>x. fixPath (title x)) ts) (map uuid ts) t),
       trace := trace s @
         [Mkdir (bp @ js ''/'' @ join (js ''/'') (map (\<lambda>x. fixPath (title x)) ts)),
          UpdateProgress (progress_item_of (map (\<lambda>x. fixPath (title x)) ts) (map uuid ts) t) True],
       progressBar := pb\<rparr>))"
    by (simp add: visit_container_chain [OF assms(4)] ne assms(5) Let_def
        register_Resolved [where pb = pb] assms(6))
  finally show ?thesis .
qed

lemma path_of_three:
  assumes mk: "\<And>p. mkdir w p = Resolved ()"
    and up: "\<And>pb i f. updateProgress w pb i f = Resolved (U pb i f)"
    and a: "type a = Some ta" "toLocaleLowerCase w ta = js ''title''"
    and b: "type b' = Some tb" "toLocaleLowerCase w tb = js ''title''" "parent_uuid b' = uuid a"
    and c: "type c = Some tc" "toLocaleLowerCase w tc \<noteq> js ''title''"
      "toLocaleLowerCase w tc \<noteq> js ''link''" "child_uuid c = []" "url c \<noteq> []"
      "parent_uuid c = uuid b'"
    and ne: "parent_uuid a \<noteq> uuid a" "uuid b' \<noteq> uuid a" "uuid c \<noteq> uuid a" "uuid c \<noteq> uuid b'"
    and s: "uuidMap s = Map.empty"
  shows "\<exists>r. traverse w opts bid bp pre [a, b', c] s = Some r \<and>
           map_option path (uuidMap (state_of r) (uuid c)) =
             Some (fixPath (title a) @ js ''/'' @ fixPath (title b') @ js ''/'' @
                   fixPath (title c) @ js ''.md'')"
proof -
  let ?pa = "progress_item_of [fixPath (title a)] [uuid a] a"
  let ?pb = "progress_item_of [fixPath (title a), fixPath (title b')] [uuid a, uuid b'] b'"
  let ?s1 = "s\<lparr>uuidMap := (uuidMap s)(uuid a \<mapsto> ?pa),
      trace := trace s @ [Mkdir (bp @ js ''/'' @ join (js ''/'') [fixPath (title a)]),
                          UpdateProgress ?pa True],
      progressBar := U (progressBar s) ?pa True\<rparr>"
  have v1: "visit w opts bid bp pre a s = Some (Returned ?s1)"
  proof -
    have ch: "registered_chain (uuidMap s) a 0 = Some [a]" by (simp add: s)
    have na: "uuidMap s (uuid a) = None" by (simp add: s)
    from visit_title [OF a na ch mk up, of opts bid bp pre] show ?thesis by simp
  qed
  have m1: "uuidMap ?s1 = [uuid a \<mapsto> ?pa]" by (simp add: s)
  let ?s2 = "?s1\<lparr>uuidMap := (uuidMap ?s1)(uuid b' \<mapsto> ?pb),
      trace := trace ?s1 @
        [Mkdir (bp @ js ''/'' @ join (js ''/'') [fixPath (title a), fixPath (title b')]),
         UpdateProgress ?pb True],
      progressBar := U (progressBar ?s1) ?pb True\<rparr>"
  have v2: "visit w opts bid bp pre b' ?s1 = Some (Returned ?s2)"
  proof -
    have ch: "registered_chain (uuidMap ?s1) b' 1 = Some [a, b']"
      using ne by (simp add: s b progress_item_of_def)
    have nb: "uuidMap ?s1 (uuid b') = None" using ne by (simp add: s)
    from visit_title [OF b(1,2) nb ch mk up, of opts bid bp pre] show ?thesis by simp
  qed
  have m2: "uuidMap ?s2 = [uuid a \<mapsto> ?pa, uuid b' \<mapsto> ?pb]" by (simp add: s)
  have nc: "uuidMap ?s2 (uuid c) = None" using ne by (simp add: s)
  have v3: "visit w opts bid bp pre c ?s2 = Some (visit_article w opts bid bp pre c ?s2)"
    by (rule visit_article_branch [OF c(1) nc c(2,4,3,5)])
  obtain s3 where r3: "visit_article w opts bid bp pre c ?s2 = Returned s3"
    by (cases "downloadArticle w (article_params opts bid bp pre (uuidMap ?s2) c)")
       (simp_all add: visit_article_def register_def up Let_def)
  have "traverse w opts bid bp pre [a, b', c] s = Some (visit_article w opts bid bp pre c ?s2)"
    by (simp only: traverse.simps v1 v2 v3 r3 option.case outcome.case)
  moreover have "map_option path (uuidMap (state_of (visit_article w opts bid bp pre c ?s2)) (uuid c)) =
      Some (fixPath (title a) @ js ''/'' @ fixPath (title b') @ js ''/'' @ fixPath (title c) @ js ''.md'')"
    using ne by (simp add: visit_article_state article_item_fields s c progress_item_of_def)
  ultimately show ?thesis by blast
qed

text \<open>
  C5. For an entry that is visited as an article, the titles of the item are the titles of the
  parent item followed by the sanitized title with \<^verbatim>\<open>.md\<close> appended, and no titles but this
  one when the parent uuid is not in the index; the path is these titles joined by a slash,
  and the file path handed to \<^verbatim>\<open>downloadArticle\<close> is the book path, a slash, and this path.
  So, from an empty index, for a title \<open>a\<close> at the root, a title \<open>b'\<close> below \<open>a\<close> and an article
  \<open>c\<close> below \<open>b'\<close>, in a world where directories can be made and progress can be recorded, the
  loop returns and the path of \<open>c\<close> is the three sanitized titles joined by slashes, with
  \<^verbatim>\<open>.md\<close> at the end.
\<close>

theorem article_path_extends_parent_path:
  "(type item = Some ty \<and> uuidMap s (uuid item) = None \<and>
    toLocaleLowerCase w ty \<noteq> js ''title'' \<and> toLocaleLowerCase w ty \<noteq> js ''link'' \<and>
    child_uuid item = [] \<and> url item \<noteq> [] \<longrightarrow>
      (let titles = (case uuidMap s (parent_uuid item) of None \<Rightarrow> []
                     | Some parent \<Rightarrow> pathTitleList parent) @
                    [fixPath (title item) @ js ''.md''];
           r = visit_article w opts bid bp pre item s;
           params = article_params opts bid bp pre (uuidMap s) item
       in visit w opts bid bp pre item s = Some r \<and>
          map_option pathTitleList (uuidMap (state_of r) (uuid item)) = Some titles \<and>
          map_option path (uuidMap (state_of r) (uuid item)) = Some (join (js ''/'') titles) \<and>
          DownloadArticle params \<in> set (trace (state_of r)) \<and>
          arg_saveFilePath params = bp @ js ''/'' @ join (js ''/'') titles \<and>
          (uuidMap s (parent_uuid item) = None \<longrightarrow>
             join (js ''/'') titles = fixPath (title item) @ js ''.md''))) \<and>
   ((\<forall>p. mkdir w p = Resolved ()) \<and>
    (\<forall>pb i f. updateProgress w pb i f = Resolved (U pb i f)) \<and>
    type a = Some ta \<and> toLocaleLowerCase w ta = js ''title'' \<and>
    type b' = Some tb \<and> toLocaleLowerCase w tb = js ''title'' \<and> parent_uuid b' = uuid a \<and>
    type c = Some tc \<and> toLocaleLowerCase w tc \<noteq> js ''title'' \<and>
    toLocaleLowerCase w tc \<noteq> js ''link'' \<and> child_uuid c = [] \<and> url c \<noteq> [] \<and>
    parent_uuid c = uuid b' \<and>
    parent_uuid a \<noteq> uuid a \<and> uuid b' \<noteq> uuid a \<and> uuid c \<noteq> uuid a \<and> uuid c \<noteq> uuid b' \<and>
    uuidMap s0 = Map.empty \<longrightarrow>
      (\<exists>r. traverse w opts bid bp pre [a, b', c] s0 = Some r \<and>
           map_option path (uuidMap (state_of r) (uuid c)) =
             Some (fixPath (title a) @ js ''/'' @ fixPath (title b') @ js ''/'' @
                   fixPath (title c) @ js ''.md'')))"
proof (intro conjI impI; elim conjE)
  assume "type item = Some ty" "uuidMap s (uuid item) = None"
    "toLocaleLowerCase w ty \<noteq> js ''title''" "toLocaleLowerCase w ty \<noteq> js ''link''"
    "child_uuid item = []" "url item \<noteq> []"
  then show "let titles = (case uuidMap s (parent_uuid item) of None \<Rightarrow> []
                     | Some parent \<Rightarrow> pathTitleList parent) @
                    [fixPath (title item) @ js ''.md''];
           r = visit_article w opts bid bp pre item s;
           params = article_params opts bid bp pre (uuidMap s) item
       in visit w opts bid bp pre item s = Some r \<and>
          map_option pathTitleList (uuidMap (state_of r) (uuid item)) = Some titles \<and>
          map_option path (uuidMap (state_of r) (uuid item)) = Some (join (js ''/'') titles) \<and>
          DownloadArticle params \<in> set (trace (state_of r)) \<and>
          arg_saveFilePath params = bp @ js ''/'' @ join (js ''/'') titles \<and>
          (uuidMap s (parent_uuid item) = None \<longrightarrow>
             join (js ''/'') titles = fixPath (title item) @ js ''.md'')"
    by (rule article_path_rule)
next
  assume mk: "\<forall>p. mkdir w p = Resolved ()"
    and up: "\<forall>pb i f. updateProgress w pb i f = Resolved (U pb i f)"
    and a: "type a = Some ta" "toLocaleLowerCase w ta = js ''title''"
    and b: "type b' = Some tb" "toLocaleLowerCase w tb = js ''title''" "parent_uuid b' = uuid a"
    and c: "type c = Some tc" "toLocaleLowerCase w tc \<noteq> js ''title''"
      "toLocaleLowerCase w tc \<noteq> js ''link''" "child_uuid c = []" "url c \<noteq> []"
      "parent_uuid c = uuid b'"
    and ne: "parent_uuid a \<noteq> uuid a" "uuid b' \<noteq> uuid a" "uuid c \<noteq> uuid a" "uuid c \<noteq> uuid b'"
    and s0: "uuidMap s0 = Map.empty"
  from mk have mk': "mkdir w p = Resolved ()" for p by simp
  from up have up': "updateProgress w pb i f = Resolved (U pb i f)" for pb i f by simp
  show "\<exists>r. traverse w opts bid bp pre [a, b', c] s0 = Some r \<and>
           map_option path (uuidMap (state_of r) (uuid c)) =
             Some (fixPath (title a) @ js ''/'' @ fixPath (title b') @ js ''/'' @
                   fixPath (title c) @ js ''.md'')"
    by (rule path_of_three [OF mk' up' a b c ne s0])
qed

lemma visit_container_grows:
  assumes "visit_container w bp item ity s = Some r"
  shows "totalArticleCount (state_of r) = totalArticleCount s \<and>
         length (trace s) < length (trace (state_of r))"
  using assms
  by (auto simp: visit_container_def Let_def register_state
      split: option.splits prod.splits if_splits promise.splits)

text \<open>
  C6. An entry whose \<^verbatim>\<open>type\<close> is not a string is skipped. An entry with a string type whose
  uuid is not in the index is treated as a container when its type in lower case is
  \<^verbatim>\<open>title\<close> or \<^verbatim>\<open>link\<close> or its \<^verbatim>\<open>child_uuid\<close> is not empty; otherwise as an article when
  its \<^verbatim>\<open>url\<close> is not empty; otherwise it is skipped and the state is the one given. The
  three outcomes differ: a container adds calls but counts no article, an article counts one.
\<close>

theorem entry_classification:
  "(type item = None \<longrightarrow> visit w opts b bp pre item s = Some (Returned s)) \<and>
   (type item = Some ty \<and> uuidMap s (uuid item) = None \<longrightarrow>
      (let itemType = toLocaleLowerCase w ty;
           container = (itemType = js ''title'' \<or> itemType = js ''link'' \<or> child_uuid item \<noteq> [])
       in visit w opts b bp pre item s =
            (if container then visit_container w bp item itemType s
             else if url item \<noteq> [] then Some (visit_article w opts b bp pre item s)
             else Some (Returned s)))) \<and>
   (\<forall>r. visit_container w bp item ity s = Some r \<longrightarrow>
      totalArticleCount (state_of r) = totalArticleCount s \<and>
      length (trace s) < length (trace (state_of r))) \<and>
   totalArticleCount (state_of (visit_article w opts b bp pre item s)) = totalArticleCount s + 1"
proof (intro conjI impI allI)
  assume "type item = None"
  then show "visit w opts b bp pre item s = Some (Returned s)" by (rule visit_not_string)
next
  assume "type item = Some ty \<and> uuidMap s (uuid item) = None"
  then show "let itemType = toLocaleLowerCase w ty;
           container = (itemType = js ''title'' \<or> itemType = js ''link'' \<or> child_uuid item \<noteq> [])
       in visit w opts b bp pre item s =
            (if container then visit_container w bp item itemType s
             else if url item \<noteq> [] then Some (visit_article w opts b bp pre item s)
             else Some (Returned s))"
    by (auto simp: visit_def Let_def)
next
  fix r assume "visit_container w bp item ity s = Some r"
  from visit_container_grows [OF this]
  show "totalArticleCount (state_of r) = totalArticleCount s"
    and "length (trace s) < length (trace (state_of r))" by simp_all
next
  show "totalArticleCount (state_of (visit_article w opts b bp pre item s)) = totalArticleCount s + 1"
    by (simp add: visit_article_state)
qed

lemma report_link_line:
  "0 < warnArticleCount s \<Longrightarrow> p \<in> set (warnArticleInfo s) \<Longrightarrow>
   Log (LinkLine (path p) (url (toc p))) \<in> set (report s)"
  by (auto simp: report_def)


section \<open>Calls made by the loop\<close>

lemma visit_container_trace:
  assumes "visit_container w bp item ity s = Some r"
  shows "\<exists>tr. trace (state_of r) = trace s @ tr \<and> (\<forall>e\<in>set tr. \<not> is_GenFile e \<and> \<not> is_Log e)"
  using assms
  by (auto simp: visit_container_def Let_def register_state
      split: option.splits prod.splits if_splits promise.splits)

lemma visit_cases:
  "visit w opts b bp pre item s = Some (Returned s) \<or>
   (\<exists>ity. visit w opts b bp pre item s = visit_container w bp item ity s) \<or>
   visit w opts b bp pre item s = Some (visit_article w opts b bp pre item s)"
proof (cases "type item")
  case None
  then show ?thesis by (simp add: visit_not_string)
next
  case (Some ty)
  show ?thesis
  proof (cases "uuidMap s (uuid item) = None")
    case False
    then show ?thesis by (simp add: visit_indexed)
  next
    case True
    show ?thesis
    proof (cases "toLocaleLowerCase w ty = js ''title'' \<or> child_uuid item \<noteq> [] \<or>
                  toLocaleLowerCase w ty = js ''link''")
      case True
      from visit_container_branch [OF Some \<open>uuidMap s (uuid item) = None\<close> True]
      show ?thesis by blast
    next
      case False
      with Some \<open>uuidMap s (uuid item) = None\<close> show ?thesis
        by (cases "url item = []") (simp_all add: visit_article_branch visit_nothing_branch)
    qed
  qed
qed

lemma visit_trace:
  assumes "visit w opts b bp pre item s = Some r"
  shows "\<exists>tr. trace (state_of r) = trace s @ tr \<and> (\<forall>e\<in>set tr. \<not> is_GenFile e \<and> \<not> is_Log e)"
proof -
  from visit_cases [of w opts b bp pre item s] assms
  consider "r = Returned s" | ity where "visit_container w bp item ity s = Some r"
    | "r = visit_article w opts b bp pre item s"
    by (elim disjE exE) simp_all
  then show ?thesis
  proof cases
    case 1
    then show ?thesis by simp
  next
    case 2
    then show ?thesis by (rule visit_container_trace)
  next
    case 3
    then show ?thesis by (simp add: visit_article_state)
  qed
qed

lemma traverse_trace:
  "traverse w opts b bp pre items s = Some r \<Longrightarrow>
   \<exists>tr. trace (state_of r) = trace s @ tr \<and> (\<forall>e\<in>set tr. \<not> is_GenFile e \<and> \<not> is_Log e)"
proof (induction items arbitrary: s)
  case Nil
  then show ?case by auto
next
  case (Cons item rest)
  then obtain r1 where v: "visit w opts b bp pre item s = Some r1"
    by (auto split: option.splits)
  from visit_trace [OF v] obtain tr1 where
    tr1: "trace (state_of r1) = trace s @ tr1" "\<forall>e\<in>set tr1. \<not> is_GenFile e \<and> \<not> is_Log e"
    by blast
  show ?case
  proof (cases r1)
    case (Threw msg s1)
    with Cons.prems v have "r = r1" by simp
    with tr1 show ?thesis by blast
  next
    case (Returned s1)
    with Cons.prems v have "traverse w opts b bp pre rest s1 = Some r" by simp
    from Cons.IH [OF this] obtain tr2 where
      "trace (state_of r) = trace s1 @ tr2" "\<forall>e\<in>set tr2. \<not> is_GenFile e \<and> \<not> is_Log e"
      by blast
    with tr1 Returned have "trace (state_of r) = trace s @ (tr1 @ tr2)"
      and "\<forall>e\<in>set (tr1 @ tr2). \<not> is_GenFile e \<and> \<not> is_Log e"
      by auto
    then show ?thesis by blast
  qed
qed

section \<open>Well-formed items\<close>

lemma ancestor_walk_result:
  assumes "ancestor_walk m (Some t) [] [] = Some (titles, ids)"
  shows "\<exists>k ts. registered_chain m t k = Some ts \<and>
           titles = map (\<lambda>x. fixPath (title x)) ts \<and> ids = map uuid ts"
proof -
  from ancestor_walk_returns [OF assms] obtain k ts where c: "registered_chain m t k = Some ts"
    by auto
  from ancestor_walk_chain [OF c, of "[]" "[]"] assms
  have "titles = map (\<lambda>x. fixPath (title x)) ts \<and> ids = map uuid ts" by simp
  with c show ?thesis by blast
qed

lemma wf_container_item:
  assumes "ancestor_walk m (Some item) [] [] = Some (titles, ids)"
  shows "wf_item (progress_item_of titles ids item)"
proof -
  from ancestor_walk_result [OF assms] obtain k ts where
    c: "registered_chain m item k = Some ts"
    and eq: "titles = map (\<lambda>x. fixPath (title x)) ts" "ids = map uuid ts"
    by blast
  from registered_chain_length [OF c] have "ts \<noteq> []" and "last ts = item" by auto
  with eq show ?thesis
    by (simp add: wf_item_def progress_item_of_def last_map)
qed

lemma wf_article_item:
  assumes "\<forall>p. m (parent_uuid item) = Some p \<longrightarrow> length (pathTitleList p) = length (pathIdList p)"
  shows "wf_item (article_item m item)"
  using assms by (simp add: wf_item_def article_item_fields split: option.splits)

lemma visit_container_index:
  assumes "visit_container w bp item ity s = Some r"
  shows "\<exists>titles ids. ancestor_walk (uuidMap s) (Some item) [] [] = Some (titles, ids) \<and>
           (uuidMap (state_of r) = uuidMap s \<or>
            uuidMap (state_of r) = (uuidMap s)(uuid item \<mapsto> progress_item_of titles ids item))"
proof (cases "ancestor_walk (uuidMap s) (Some item) [] []")
  case None
  with assms show ?thesis by (simp add: visit_container_def)
next
  case (Some res)
  obtain titles ids where res: "res = (titles, ids)" by (cases res)
  show ?thesis
  proof (cases "ity = js ''link''")
    case True
    with assms Some res show ?thesis
      by (auto simp: visit_container_def register_state Let_def)
  next
    case False
    show ?thesis
    proof (cases "mkdir w (bp @ js ''/'' @ join (js ''/'') titles)")
      case (Resolved u)
      with assms Some res False show ?thesis
        by (auto simp: visit_container_def register_state Let_def)
    next
      case (Rejected msg)
      with assms Some res False show ?thesis
        by (auto simp: visit_container_def Let_def)
    qed
  qed
qed

lemma visit_wf:
  assumes old: "\<forall>k p. uuidMap s k = Some p \<longrightarrow> length (pathTitleList p) = length (pathIdList p)"
    and v: "visit w opts b bp pre item s = Some r"
  shows "\<forall>k p. uuidMap (state_of r) k = Some p \<longrightarrow> uuidMap s k = Some p \<or> wf_item p"
proof -
  from visit_cases [of w opts b bp pre item s] v
  consider (skip) "r = Returned s" | (container) ity where "visit_container w bp item ity s = Some r"
    | (article) "r = visit_article w opts b bp pre item s"
    by (elim disjE exE) simp_all
  then show ?thesis
  proof cases
    case skip
    then show ?thesis by simp
  next
    case container
    from visit_container_index [OF container] obtain titles ids where
      walk: "ancestor_walk (uuidMap s) (Some item) [] [] = Some (titles, ids)"
      and cases: "uuidMap (state_of r) = uuidMap s \<or>
                  uuidMap (state_of r) = (uuidMap s)(uuid item \<mapsto> progress_item_of titles ids item)"
      by blast
    show ?thesis
    proof (intro allI impI)
      fix k p assume kp: "uuidMap (state_of r) k = Some p"
      from cases show "uuidMap s k = Some p \<or> wf_item p"
      proof
        assume "uuidMap (state_of r) = uuidMap s"
        with kp show ?thesis by simp
      next
        assume "uuidMap (state_of r) =
                (uuidMap s)(uuid item \<mapsto> progress_item_of titles ids item)"
        with kp have "uuidMap s k = Some p \<or> p = progress_item_of titles ids item"
          by (simp split: if_splits)
        with wf_container_item [OF walk] show ?thesis by blast
      qed
    qed
  next
    case article
    have wf: "wf_item (article_item (uuidMap s) item)"
      using old by (intro wf_article_item) blast
    show ?thesis
    proof (intro allI impI)
      fix k p assume "uuidMap (state_of r) k = Some p"
      with article have "uuidMap s k = Some p \<or> p = article_item (uuidMap s) item"
        by (simp add: visit_article_state split: if_splits)
      with wf show "uuidMap s k = Some p \<or> wf_item p" by blast
    qed
  qed
qed

text \<open>
  C10. When the items in the index at the start of the loop have as many titles as uuids,
  every item in the index after the loop either was there at the start or is well formed: as
  many titles as uuids, the uuid of its own entry last, and the path the titles joined by a
  slash. The index is empty at the start of a run that does not resume an interrupted one.
\<close>

theorem constructed_items_are_well_formed:
  assumes "\<forall>k p. uuidMap s k = Some p \<longrightarrow> length (pathTitleList p) = length (pathIdList p)"
    and "traverse w opts b bp pre items s = Some r"
  shows "\<forall>k p. uuidMap (state_of r) k = Some p \<longrightarrow> uuidMap s k = Some p \<or> wf_item p"
  using assms
proof (induction items arbitrary: s)
  case Nil
  then show ?case by auto
next
  case (Cons item rest)
  then obtain r1 where v: "visit w opts b bp pre item s = Some r1"
    by (auto split: option.splits)
  note step = visit_wf [OF Cons.prems(1) v]
  show ?case
  proof (cases r1)
    case (Threw msg s1)
    with Cons.prems v have "r = r1" by simp
    with step show ?thesis by simp
  next
    case (Returned s1)
    with Cons.prems v have t: "traverse w opts b bp pre rest s1 = Some r" by simp
    from step Returned Cons.prems(1)
    have s1: "\<forall>k p. uuidMap s1 k = Some p \<longrightarrow> length (pathTitleList p) = length (pathIdList p)"
      by (auto simp: wf_item_def)
    from Cons.IH [OF s1 t] step Returned show ?thesis by auto
  qed
qed

section \<open>Requests made by the loop\<close>








section \<open>Termination\<close>

lemma ranked_chain_leaves:
  assumes "ranked rank es" and "keyed_by_uuid es m" and "t \<in> set es"
  shows "\<exists>k. registered_chain m t k \<noteq> None"
  using assms(3)
proof (induction "rank (uuid t)" arbitrary: t rule: less_induct)
  case less
  show ?case
  proof (cases "m (parent_uuid t)")
    case None
    then have "registered_chain m t 0 \<noteq> None" by simp
    then show ?thesis ..
  next
    case (Some p)
    with assms(2) have p: "toc p \<in> set es" "uuid (toc p) = parent_uuid t"
      by (auto simp: keyed_by_uuid_def)
    have "parent_uuid t = uuid (toc p)" using p(2) by simp
    with assms(1) less.prems p(1) have "rank (uuid (toc p)) < rank (uuid t)"
      unfolding ranked_def by blast
    from less.hyps [OF this p(1)] obtain k where "registered_chain m (toc p) k \<noteq> None"
      by blast
    with Some have "registered_chain m t (Suc k) \<noteq> None"
      by (auto split: option.splits)
    then show ?thesis ..
  qed
qed

lemma visit_container_returns:
  assumes "registered_chain (uuidMap s) item k = Some ts"
  shows "\<exists>r. visit_container w bp item ity s = Some r"
  by (cases "mkdir w (bp @ js ''/'' @ join (js ''/'') (map (\<lambda>x. fixPath (title x)) ts))")
     (simp_all add: visit_container_chain [OF assms] Let_def)

lemma keyed_by_uuid_update:
  assumes "keyed_by_uuid es m" and "item \<in> set es" and "toc p = item"
  shows "keyed_by_uuid es (m(uuid item \<mapsto> p))"
  using assms by (auto simp: keyed_by_uuid_def)

lemma visit_returns_ranked:
  assumes r: "ranked rank es" and k: "keyed_by_uuid es (uuidMap s)" and i: "item \<in> set es"
  shows "\<exists>r. visit w opts bid bp pre item s = Some r \<and> keyed_by_uuid es (uuidMap (state_of r))"
proof -
  from visit_cases [of w opts bid bp pre item s]
  consider (skip) "visit w opts bid bp pre item s = Some (Returned s)"
    | (container) ity where "visit w opts bid bp pre item s = visit_container w bp item ity s"
    | (article) "visit w opts bid bp pre item s = Some (visit_article w opts bid bp pre item s)"
    by blast
  then show ?thesis
  proof cases
    case skip
    with k show ?thesis by simp
  next
    case container
    from ranked_chain_leaves [OF r k i] obtain n ts where
      c: "registered_chain (uuidMap s) item n = Some ts" by auto
    from visit_container_returns [OF c] obtain r' where
      r': "visit_container w bp item ity s = Some r'" by blast
    from visit_container_index [OF r'] obtain titles ids where
      "uuidMap (state_of r') = uuidMap s \<or>
       uuidMap (state_of r') = (uuidMap s)(uuid item \<mapsto> progress_item_of titles ids item)"
      by blast
    then have "keyed_by_uuid es (uuidMap (state_of r'))"
    proof
      assume "uuidMap (state_of r') = uuidMap s"
      with k show ?thesis by simp
    next
      assume "uuidMap (state_of r') = (uuidMap s)(uuid item \<mapsto> progress_item_of titles ids item)"
      with keyed_by_uuid_update [OF k i, of "progress_item_of titles ids item"]
      show ?thesis by (simp add: progress_item_of_def)
    qed
    with container r' show ?thesis by simp
  next
    case article
    have "keyed_by_uuid es (uuidMap (state_of (visit_article w opts bid bp pre item s)))"
      using keyed_by_uuid_update [OF k i, of "article_item (uuidMap s) item"]
      by (simp add: visit_article_state article_item_fields)
    with article show ?thesis by simp
  qed
qed

lemma traverse_returns_ranked:
  assumes "ranked rank es" and "keyed_by_uuid es (uuidMap s)" and "set items \<subseteq> set es"
  shows "\<exists>r. traverse w opts bid bp pre items s = Some r"
  using assms(2,3)
proof (induction items arbitrary: s)
  case Nil
  then show ?case by simp
next
  case (Cons item rest)
  then have "item \<in> set es" by simp
  from visit_returns_ranked [OF assms(1) Cons.prems(1) this, of w opts bid bp pre]
  obtain r1 where v: "visit w opts bid bp pre item s = Some r1"
    and k1: "keyed_by_uuid es (uuidMap (state_of r1))" by blast
  show ?case
  proof (cases r1)
    case (Threw msg s1)
    with v show ?thesis by simp
  next
    case (Returned s1)
    with k1 Cons.prems have "\<exists>r. traverse w opts bid bp pre rest s1 = Some r"
      by (intro Cons.IH) simp_all
    with v Returned show ?thesis by simp
  qed
qed

text \<open>
  C4 (amended). When the \<^verbatim>\<open>parent_uuid\<close> references from an entry pass \<open>k\<close> registered
  ancestors and then meet a uuid that is not in the index, the ancestor walk returns after
  \<open>k + 1\<close> iterations, with the sanitized titles and the uuids of these ancestors from the
  topmost one down to the entry. An entry whose parent is not in the index, such as a child
  visited before its parent, gets the path made of itself alone. The walk fails to return
  exactly when the references never leave the index. They always leave it, and the loop
  returns or throws, when the parent references of the table of contents have no cycle and
  the index holds entries of the table under their own uuids, as the empty index does.
\<close>

theorem ancestor_walk_returns_iff_chain_leaves_index:
  "(registered_chain m t k = Some ts \<longrightarrow>
      ancestor_walk m (Some t) [] [] = Some (map (\<lambda>x. fixPath (title x)) ts, map uuid ts) \<and>
      length ts = Suc k \<and> last ts = t) \<and>
   (m (parent_uuid t) = None \<longrightarrow>
      ancestor_walk m (Some t) [] [] = Some ([fixPath (title t)], [uuid t])) \<and>
   ((\<forall>k. registered_chain m t k = None) \<longleftrightarrow> ancestor_walk m (Some t) [] [] = None) \<and>
   (ranked rank es \<and> keyed_by_uuid es (uuidMap s) \<and> set items \<subseteq> set es \<longrightarrow>
      (\<exists>r. traverse w opts bid bp pre items s = Some r))"
proof (intro conjI impI)
  assume c: "registered_chain m t k = Some ts"
  from ancestor_walk_chain [OF c, of "[]" "[]"]
  show "ancestor_walk m (Some t) [] [] = Some (map (\<lambda>x. fixPath (title x)) ts, map uuid ts)"
    by simp
  from registered_chain_length [OF c] show "length ts = Suc k" and "last ts = t"
    by simp_all
next
  assume "m (parent_uuid t) = None"
  then have "registered_chain m t 0 = Some [t]" by simp
  from ancestor_walk_chain [OF this, of "[]" "[]"]
  show "ancestor_walk m (Some t) [] [] = Some ([fixPath (title t)], [uuid t])"
    by simp
next
  show "(\<forall>k. registered_chain m t k = None) \<longleftrightarrow> ancestor_walk m (Some t) [] [] = None"
  proof
    assume "\<forall>k. registered_chain m t k = None"
    then show "ancestor_walk m (Some t) [] [] = None" by (rule ancestor_walk_diverges)
  next
    assume n: "ancestor_walk m (Some t) [] [] = None"
    show "\<forall>k. registered_chain m t k = None"
    proof (rule ccontr)
      assume "\<not> (\<forall>k. registered_chain m t k = None)"
      then obtain k ts where "registered_chain m t k = Some ts" by auto
      from ancestor_walk_chain [OF this, of "[]" "[]"] n show False by simp
    qed
  qed
next
  assume "ranked rank es \<and> keyed_by_uuid es (uuidMap s) \<and> set items \<subseteq> set es"
  then show "\<exists>r. traverse w opts bid bp pre items s = Some r"
    by (intro traverse_returns_ranked [where rank = rank and es = es]) simp_all
qed


section \<open>The whole run\<close>

lemma is_Log_not_GenFile: "is_Log e \<Longrightarrow> \<not> is_GenFile e"
  by (cases e) simp_all

lemma genFile_calls_simps:
  "genFile_calls [] = 0"
  "genFile_calls (tr @ tr') = genFile_calls tr + genFile_calls tr'"
  "genFile_calls (e # tr) = (if is_GenFile e then 1 else 0) + genFile_calls tr"
  by (simp_all add: genFile_calls_def)

lemma genFile_calls_none:
  "\<forall>e\<in>set tr. \<not> is_GenFile e \<Longrightarrow> genFile_calls tr = 0"
  by (induction tr) (simp_all add: genFile_calls_simps)

lemma report_logs: "\<forall>e\<in>set (report s). is_Log e"
  by (auto simp: report_def)

lemma genFile_calls_report: "genFile_calls (report s) = 0"
  using report_logs [of s] by (intro genFile_calls_none) (blast dest: is_Log_not_GenFile)

lemma start_fields:
  "trace (start bp n pb) = [Mkdir bp, InitProgress bp n]"
  "uuidMap (start bp n pb) = restore pb"
  "progressBar (start bp n pb) = pb"
  by (simp_all add: start_def initial_def)

lemma finish_trace:
  "\<exists>logs. trace (state_of (finish w info bp n s5)) =
            trace s5 @ report s5 @
            [GenFile bp (bookName info) (bookDesc info) (uuidMap s5)] @ logs \<and>
          (\<forall>e\<in>set logs. is_Log e)"
  by (cases "genFile w bp (bookName info) (bookDesc info) (uuidMap s5)")
     (simp_all add: finish_def Let_def)



lemma finish_calls:
  "genFile_calls (trace (state_of (finish w info bp n s5))) = genFile_calls (trace s5) + 1"
proof -
  from finish_trace [of w info bp n s5] obtain logs where
    tr: "trace (state_of (finish w info bp n s5)) =
         trace s5 @ report s5 @ [GenFile bp (bookName info) (bookDesc info) (uuidMap s5)] @ logs"
    and logs: "\<forall>e\<in>set logs. is_Log e"
    by blast
  from logs have "genFile_calls logs = 0"
    by (intro genFile_calls_none) (blast dest: is_Log_not_GenFile)
  with tr show ?thesis
    by (simp add: genFile_calls_simps genFile_calls_report)
qed

lemma traverse_calls:
  assumes "traverse w opts b bp pre items s = Some r"
  shows "genFile_calls (trace (state_of r)) = genFile_calls (trace s)"
proof -
  from traverse_trace [OF assms] obtain tr where
    "trace (state_of r) = trace s @ tr" and "\<forall>e\<in>set tr. \<not> is_GenFile e \<and> \<not> is_Log e"
    by blast
  then show ?thesis
    by (simp add: genFile_calls_simps genFile_calls_none)
qed

lemma main_download:
  assumes "getKnowledgeBaseInfo w url' = Resolved info" and "bookId info = Some bid"
    and "bid \<noteq> 0" and "tocList info = Some es" and "es \<noteq> []"
  shows "main w url' opts = download w url' opts info bid es"
  using assms by (simp add: main_def)

lemma main_precondition_failure:
  assumes "getKnowledgeBaseInfo w url' = Resolved info"
    and "bookId info = None \<or> bookId info = Some 0 \<or> tocList info = None \<or> tocList info = Some []"
  shows "main w url' opts =
     Some (Threw (if bookId info = None \<or> bookId info = Some 0 then js ''No found book id''
                  else js ''No found toc list'') initial)"
  using assms by (auto simp: main_def split: option.splits)

lemma download_already_done:
  assumes "mkdir w (book_path opts info bid) = Resolved u"
    and "init w (book_path opts info bid) (length es) = Resolved pb"
    and "curr pb = length es"
  shows "download w url' opts info bid es =
     Some (Returned (initial\<lparr>progressBar := pb,
       trace := [Mkdir (book_path opts info bid), InitProgress (book_path opts info bid) (length es),
                 Log (AlreadyDone (cwd w) (book_path opts info bid))]\<rparr>))"
  using assms by (simp add: download_def Let_def)

lemma download_loop:
  assumes "mkdir w (book_path opts info bid) = Resolved u"
    and "init w (book_path opts info bid) (length es) = Resolved pb"
    and "curr pb \<noteq> length es"
  shows "download w url' opts info bid es =
     (case traverse w opts bid (book_path opts info bid) (articleUrlPrefixOf w url' (bookSlug info))
             es (start (book_path opts info bid) (length es) pb) of
        None \<Rightarrow> None
      | Some (Threw msg s5) \<Rightarrow> Some (Threw msg s5)
      | Some (Returned s5) \<Rightarrow> Some (finish w info (book_path opts info bid) (length es) s5))"
  using assms by (simp add: download_def Let_def)

lemma download_calls_and_head:
  assumes "download w url' opts info bid es = Some r"
  shows "genFile_calls (trace (state_of r)) \<le> 1 \<and>
         (\<exists>tr. trace (state_of r) = Mkdir (book_path opts info bid) # tr)"
proof (cases "mkdir w (book_path opts info bid)")
  case (Rejected msg)
  with assms show ?thesis
    by (auto simp: download_def Let_def genFile_calls_simps)
next
  case (Resolved u)
  note mk = this
  show ?thesis
  proof (cases "init w (book_path opts info bid) (length es)")
    case (Rejected msg)
    with assms mk show ?thesis
      by (auto simp: download_def Let_def genFile_calls_simps)
  next
    case (Resolved pb)
    note ini = this
    show ?thesis
    proof (cases "curr pb = length es")
      case True
      from assms download_already_done [OF mk ini True, of url'] show ?thesis
        by (auto simp: genFile_calls_simps)
    next
      case False
      note loop = download_loop [OF mk ini False, of url']
      let ?t = "traverse w opts bid (book_path opts info bid)
                  (articleUrlPrefixOf w url' (bookSlug info)) es
                  (start (book_path opts info bid) (length es) pb)"
      from assms loop obtain r5 where r5: "?t = Some r5"
        by (cases ?t) simp_all
      from traverse_trace [OF r5] obtain tr where
        tr: "trace (state_of r5) = [Mkdir (book_path opts info bid),
               InitProgress (book_path opts info bid) (length es)] @ tr"
        by (auto simp: start_fields)
      from traverse_calls [OF r5]
      have c5: "genFile_calls (trace (state_of r5)) = 0"
        by (simp add: start_fields genFile_calls_simps)
      show ?thesis
      proof (cases r5)
        case (Threw msg s5)
        with assms loop r5 have "r = r5" by simp
        with tr c5 show ?thesis by simp
      next
        case (Returned s5)
        with assms loop r5
        have r: "r = finish w info (book_path opts info bid) (length es) s5" by simp
        from finish_trace [of w info "book_path opts info bid" "length es" s5] tr Returned
        have "\<exists>tr'. trace (state_of (finish w info (book_path opts info bid) (length es) s5)) =
                Mkdir (book_path opts info bid) # tr'"
          by auto
        with r c5 Returned show ?thesis
          by (simp add: finish_calls)
      qed
    qed
  qed
qed

lemma main_calls:
  assumes "main w url' opts = Some r"
  shows "genFile_calls (trace (state_of r)) \<le> 1"
proof (cases "getKnowledgeBaseInfo w url'")
  case (Rejected msg)
  with assms show ?thesis
    by (auto simp: main_def initial_def genFile_calls_simps)
next
  case (Resolved info)
  show ?thesis
  proof (cases "bookId info = None \<or> bookId info = Some 0 \<or> tocList info = None \<or>
                tocList info = Some []")
    case True
    from main_precondition_failure [OF Resolved True, of opts] assms show ?thesis
      by (auto simp: initial_def genFile_calls_simps)
  next
    case False
    then obtain bid es where "bookId info = Some bid" "bid \<noteq> 0" "tocList info = Some es" "es \<noteq> []"
      by auto
    from main_download [OF Resolved this, of opts] assms download_calls_and_head
    show ?thesis by metis
  qed
qed


section \<open>The sample run\<close>

lemma demo_calls:
  "getKnowledgeBaseInfo demo u = Resolved demo_book"
  "mkdir demo p = Resolved ()"
  "init demo p n = Resolved fresh"
  "updateProgress demo = spec_updateProgress"
  "downloadArticle demo q = Resolved True"
  "genFile demo p name desc m = Resolved ()"
  "toLocaleLowerCase demo = ascii_lower"
  "articleUrlPrefixOf demo u slug = u"
  "cwd demo = js ''/home''"
  by (simp_all add: demo_def)

lemma offline_calls:
  "mkdir offline p = Resolved ()"
  "updateProgress offline = spec_updateProgress"
  "downloadArticle offline q = Rejected (js ''timeout'')"
  "toLocaleLowerCase offline = ascii_lower"
  by (simp_all add: offline_def demo_def)

lemma rerun_calls:
  "getKnowledgeBaseInfo rerun u = Resolved demo_book"
  "mkdir rerun p = Resolved ()"
  "init rerun p n = Resolved (progressBar after_hello)"
  "cwd rerun = js ''/home''"
  by (simp_all add: rerun_def demo_def)

lemma cyclic_calls:
  "getKnowledgeBaseInfo cyclic u = Resolved (demo_book\<lparr>tocList := Some [self_parent, child]\<rparr>)"
  "mkdir cyclic p = Resolved ()"
  "init cyclic p n = Resolved fresh"
  "updateProgress cyclic = spec_updateProgress"
  "toLocaleLowerCase cyclic = ascii_lower"
  by (simp_all add: cyclic_def demo_def)

lemma replace_first_none: "\<forall>c\<in>set s. \<not> cls c \<Longrightarrow> replace_first cls rep s = s"
  by (induction s) simp_all

lemma fixPath_plain:
  assumes "\<forall>c\<in>set s. \<not> dirNameReg c \<and> \<not> whitespace c"
  shows "fixPath s = s"
proof -
  from assms have "map (\<lambda>c. if dirNameReg c then 0x5F else c) s = s"
    by (intro map_idI) simp
  with assms show ?thesis
    by (simp add: fixPath_def replace_all_single js_underscore replace_first_none)
qed

lemma fixPath_samples:
  "fixPath (js ''Demo'') = js ''Demo''"
  "fixPath (js ''Intro'') = js ''Intro''"
  "fixPath (js ''Hello'') = js ''Hello''"
  "fixPath (js ''Site'') = js ''Site''"
  "fixPath (js ''A'') = js ''A''"
  "fixPath (js ''B'') = js ''B''"
  "fixPath (js ''X'') = js ''X''"
  by (rule fixPath_plain, simp add: js_def dirNameReg_def whitespace_def)+

lemma lower_samples:
  "ascii_lower (js ''TITLE'') = js ''title''"
  "ascii_lower (js ''DOC'') = js ''doc''"
  "ascii_lower (js ''LINK'') = js ''link''"
  by (simp_all add: ascii_lower_def js_def)

lemma js_distinct:
  "js ''doc'' \<noteq> js ''title''" "js ''doc'' \<noteq> js ''link''" "js ''title'' \<noteq> js ''link''"
  "js ''link'' \<noteq> js ''title''"
  "js ''1'' \<noteq> js ''2''" "js ''1'' \<noteq> js ''3''" "js ''2'' \<noteq> js ''3''"
  "js ''2'' \<noteq> js ''1''" "js ''3'' \<noteq> js ''1''" "js ''3'' \<noteq> js ''2''"
  "js ''a'' \<noteq> js ''b''" "js ''b'' \<noteq> js ''a''"
  "js ''1'' \<noteq> []" "js ''abc'' \<noteq> []" "js ''Demo'' \<noteq> []"
  by (simp_all add: js_def)

lemma book_path_demo: "book_path demo_opts demo_book 7 = js ''out/Demo''"
  by (simp add: book_path_def demo_opts_def demo_book_def fixPath_samples js_distinct)
     (simp add: js_def)

lemma start_demo:
  "start (js ''out/Demo'') 2 fresh =
     \<lparr>uuidMap = Map.empty, errArticleCount = 0, totalArticleCount = 0, warnArticleCount = 0,
      errArticleInfo = [], warnArticleInfo = [], progressBar = fresh,
      trace = [Mkdir (js ''out/Demo''), InitProgress (js ''out/Demo'') 2]\<rparr>"
  by (simp add: start_def initial_def restore_def fresh_def)

lemma visit_intro:
  assumes "toLocaleLowerCase w = ascii_lower" and "\<And>p. mkdir w p = Resolved ()"
    and "updateProgress w = spec_updateProgress"
  shows "visit w opts bid (js ''out/Demo'') pre intro (start (js ''out/Demo'') 2 fresh) =
         Some (Returned after_intro)"
proof -
  have c: "registered_chain (uuidMap (start (js ''out/Demo'') 2 fresh)) intro 0 = Some [intro]"
    by (simp add: start_demo)
  have t: "type intro = Some (js ''TITLE'')" and u: "uuidMap (start (js ''out/Demo'') 2 fresh) (uuid intro) = None"
    by (simp_all add: intro_def start_demo)
  show ?thesis
    apply (subst visit_container_branch [OF t u])
     apply (simp add: assms lower_samples)
    apply (subst visit_container_chain [OF c])
    apply (simp add: assms lower_samples js_distinct register_def spec_updateProgress_def
        progress_item_of_def start_demo Let_def after_intro_def item_intro_def)
    apply (simp add: intro_def fixPath_samples fresh_def)
    apply (simp add: js_def)
    done
qed


lemma article_item_hello: "article_item (uuidMap after_intro) hello = item_hello"
  by (simp add: article_item_def preItem_def progress_item_of_def after_intro_def hello_def
      item_intro_def item_hello_def fixPath_samples Let_def)
     (simp add: js_def)

lemma article_params_hello:
  "article_params demo_opts 7 (js ''out/Demo'') demo_url (uuidMap after_intro) hello = params_hello"
  by (simp add: article_params_def article_item_hello preItem_def)
     (simp add: after_intro_def hello_def item_intro_def item_hello_def params_hello_def
        demo_opts_def demo_url_def js_def)

lemma lower_DOC: "ascii_lower (js ''DOC'') \<noteq> js ''title''" "ascii_lower (js ''DOC'') \<noteq> js ''link''"
  by (simp_all add: ascii_lower_def js_def)

lemma hello_is_article:
  "type hello = Some (js ''DOC'')" "uuidMap after_intro (uuid hello) = None"
  "child_uuid hello = []" "url hello \<noteq> []"
  by (simp_all add: hello_def after_intro_def js_distinct)

lemma visit_hello:
  assumes "toLocaleLowerCase w = ascii_lower" and "updateProgress w = spec_updateProgress"
    and "downloadArticle w params_hello = Resolved x"
  shows "visit w demo_opts 7 (js ''out/Demo'') demo_url hello after_intro =
         Some (Returned after_hello)"
proof -
  have up: "updateProgress w (progressBar after_intro) item_hello True =
      Resolved \<lparr>curr = 2, isDownloadInterrupted = False, progressInfo = [item_intro, item_hello]\<rparr>"
    by (simp add: assms spec_updateProgress_def after_intro_def)
  have "visit w demo_opts 7 (js ''out/Demo'') demo_url hello after_intro =
        Some (visit_article w demo_opts 7 (js ''out/Demo'') demo_url hello after_intro)"
    by (rule visit_article_branch [where ty = "js ''DOC''"])
       (simp_all add: assms hello_is_article lower_DOC)
  also have "visit_article w demo_opts 7 (js ''out/Demo'') demo_url hello after_intro =
        Returned after_hello"
  proof -
    have dl: "downloadArticle w
        (article_params demo_opts 7 (js ''out/Demo'') demo_url (uuidMap after_intro) hello) =
        Resolved x"
      by (simp add: article_params_hello assms)
    have up': "updateProgress w (progressBar after_intro)
        (article_item (uuidMap after_intro) hello) True =
        Resolved \<lparr>curr = 2, isDownloadInterrupted = False,
          progressInfo = [item_intro, item_hello]\<rparr>"
      by (simp add: article_item_hello up)
    show ?thesis
      by (simp add: visit_article_ok [OF dl up'] article_params_hello article_item_hello)
         (simp add: after_hello_def after_intro_def hello_def)
  qed
  finally show ?thesis .
qed

lemma demo_traverse:
  "traverse demo demo_opts 7 (js ''out/Demo'') demo_url [intro, hello]
     (start (js ''out/Demo'') 2 fresh) = Some (Returned after_hello)"
  by (simp add: visit_intro visit_hello demo_calls)



section \<open>A second run after a failed request\<close>











section \<open>Complete books, the summary, and a run that does not return\<close>


lemma summary_calls_Some: "summary_calls (Some r) = Some (genFile_calls (trace (state_of r)))"
  by (simp add: summary_calls_def)

text \<open>
  C9 (amended). No run calls the summary generator more than once. A run that fails a
  precondition (no book identifier, no table of contents), a run that finds the book complete
  at startup, and a run whose loop throws do not call it. A run that passes the
  preconditions, is not complete at startup and whose loop returns calls it exactly once,
  after every call of the loop and after the reports; only log lines follow.
\<close>

theorem summary_generated_once_after_loop:
  "(main w url' opts = Some r \<longrightarrow> genFile_calls (trace (state_of r)) \<le> 1) \<and>
   (getKnowledgeBaseInfo w url' = Resolved info \<and>
    (bookId info = None \<or> bookId info = Some 0 \<or> tocList info = None \<or> tocList info = Some []) \<longrightarrow>
      summary_calls (main w url' opts) = Some 0) \<and>
   (getKnowledgeBaseInfo w url' = Resolved info \<and> bookId info = Some bid \<and> bid \<noteq> 0 \<and>
    tocList info = Some es \<and> es \<noteq> [] \<and>
    mkdir w (book_path opts info bid) = Resolved () \<and>
    init w (book_path opts info bid) (length es) = Resolved pb \<longrightarrow>
      (curr pb = length es \<longrightarrow> summary_calls (main w url' opts) = Some 0) \<and>
      (curr pb \<noteq> length es \<and>
       traverse w opts bid (book_path opts info bid) (articleUrlPrefixOf w url' (bookSlug info)) es
         (start (book_path opts info bid) (length es) pb) = Some (Threw msg s5) \<longrightarrow>
         summary_calls (main w url' opts) = Some 0) \<and>
      (curr pb \<noteq> length es \<and>
       traverse w opts bid (book_path opts info bid) (articleUrlPrefixOf w url' (bookSlug info)) es
         (start (book_path opts info bid) (length es) pb) = Some (Returned s5) \<longrightarrow>
         main w url' opts = Some (finish w info (book_path opts info bid) (length es) s5) \<and>
         summary_calls (main w url' opts) = Some 1 \<and>
         genFile_calls (trace s5) = 0 \<and>
         (\<exists>logs. trace (state_of (finish w info (book_path opts info bid) (length es) s5)) =
                   trace s5 @ report s5 @
                   [GenFile (book_path opts info bid) (bookName info) (bookDesc info) (uuidMap s5)] @
                   logs \<and>
                 (\<forall>e\<in>set logs. is_Log e))))"
proof (intro conjI impI; (elim conjE)?)
  assume "main w url' opts = Some r"
  then show "genFile_calls (trace (state_of r)) \<le> 1" by (rule main_calls)
next
  assume "getKnowledgeBaseInfo w url' = Resolved info"
    and "bookId info = None \<or> bookId info = Some 0 \<or> tocList info = None \<or> tocList info = Some []"
  from main_precondition_failure [OF this, of opts]
  show "summary_calls (main w url' opts) = Some 0"
    by (simp add: summary_calls_Some initial_def genFile_calls_simps)
next
  assume h: "getKnowledgeBaseInfo w url' = Resolved info" "bookId info = Some bid" "bid \<noteq> 0"
    "tocList info = Some es" "es \<noteq> []"
    and mk: "mkdir w (book_path opts info bid) = Resolved ()"
    and ini: "init w (book_path opts info bid) (length es) = Resolved pb"
    and same: "curr pb = length es"
  from main_download [OF h, of opts] download_already_done [OF mk ini same, of url']
  show "summary_calls (main w url' opts) = Some 0"
    by (simp add: summary_calls_Some genFile_calls_simps)
next
  assume h: "getKnowledgeBaseInfo w url' = Resolved info" "bookId info = Some bid" "bid \<noteq> 0"
    "tocList info = Some es" "es \<noteq> []"
    and mk: "mkdir w (book_path opts info bid) = Resolved ()"
    and ini: "init w (book_path opts info bid) (length es) = Resolved pb"
    and less: "curr pb \<noteq> length es"
    and t: "traverse w opts bid (book_path opts info bid) (articleUrlPrefixOf w url' (bookSlug info)) es
         (start (book_path opts info bid) (length es) pb) = Some (Threw msg s5)"
  from traverse_calls [OF t] have "genFile_calls (trace s5) = 0"
    by (simp add: start_fields genFile_calls_simps)
  with main_download [OF h, of opts] download_loop [OF mk ini less, of url'] t
  show "summary_calls (main w url' opts) = Some 0"
    by (simp add: summary_calls_Some)
next
  assume h: "getKnowledgeBaseInfo w url' = Resolved info" "bookId info = Some bid" "bid \<noteq> 0"
    "tocList info = Some es" "es \<noteq> []"
    and mk: "mkdir w (book_path opts info bid) = Resolved ()"
    and ini: "init w (book_path opts info bid) (length es) = Resolved pb"
    and less: "curr pb \<noteq> length es"
    and t: "traverse w opts bid (book_path opts info bid) (articleUrlPrefixOf w url' (bookSlug info)) es
         (start (book_path opts info bid) (length es) pb) = Some (Returned s5)"
  from traverse_calls [OF t] show c5: "genFile_calls (trace s5) = 0"
    by (simp add: start_fields genFile_calls_simps)
  from main_download [OF h, of opts] download_loop [OF mk ini less, of url'] t
  show m: "main w url' opts = Some (finish w info (book_path opts info bid) (length es) s5)"
    by simp
  from m c5 show "summary_calls (main w url' opts) = Some 1"
    by (simp add: summary_calls_Some finish_calls)
  show "\<exists>logs. trace (state_of (finish w info (book_path opts info bid) (length es) s5)) =
                   trace s5 @ report s5 @
                   [GenFile (book_path opts info bid) (bookName info) (bookDesc info) (uuidMap s5)] @
                   logs \<and>
                 (\<forall>e\<in>set logs. is_Log e)"
    by (rule finish_trace)
qed

text \<open>
  C9, as stated, fails: the second run of the sample scenario returns without a call of the
  summary generator.
\<close>

theorem completed_book_has_no_summary: "summary_calls (main rerun demo_url demo_opts) = Some 0"
proof -
  have info: "bookId demo_book = Some 7" "tocList demo_book = Some [intro, hello]"
    by (simp_all add: demo_book_def)
  have "main rerun demo_url demo_opts = download rerun demo_url demo_opts demo_book 7 [intro, hello]"
    by (rule main_download) (simp_all add: rerun_calls info)
  also have "\<dots> = Some (Returned (initial\<lparr>progressBar := progressBar after_hello,
       trace := [Mkdir (book_path demo_opts demo_book 7),
                 InitProgress (book_path demo_opts demo_book 7) (length [intro, hello]),
                 Log (AlreadyDone (cwd rerun) (book_path demo_opts demo_book 7))]\<rparr>))"
    by (rule download_already_done [where u = "()"])
       (simp_all add: rerun_calls after_hello_def)
  finally show ?thesis
    by (simp add: summary_calls_Some genFile_calls_simps)
qed

lemma child_no_chain:
  assumes "m (parent_uuid c) = Some p" and "\<forall>k. registered_chain m (toc p) k = None"
  shows "registered_chain m c k = None"
  using assms by (cases k) simp_all

lemma start_fresh_index: "uuidMap (start bp n fresh) = Map.empty"
  by (simp add: start_fields restore_def fresh_def)

text \<open>
  C4, as stated, fails: for a table of contents whose first title names itself as its parent
  and whose second title is a child of the first, the ancestor walk of the second entry does
  not return, and neither does the run.
\<close>

theorem self_parent_run_does_not_return: "main cyclic demo_url demo_opts = None"
proof -
  let ?bp = "book_path demo_opts (demo_book\<lparr>tocList := Some [self_parent, child]\<rparr>) 7"
  let ?s0 = "start ?bp 2 fresh"
  let ?pa = "progress_item_of [fixPath (title self_parent)] [uuid self_parent] self_parent"
  let ?dir = "?bp @ js ''/'' @ join (js ''/'') [fixPath (title self_parent)]"
  let ?s1 = "?s0\<lparr>uuidMap := (uuidMap ?s0)(uuid self_parent \<mapsto> ?pa),
      trace := trace ?s0 @ [Mkdir ?dir, UpdateProgress ?pa True],
      progressBar := \<lparr>curr = 1, isDownloadInterrupted = False, progressInfo = [?pa]\<rparr>\<rparr>"
  note empty = start_fresh_index
  have len: "length [self_parent, child] = 2" by simp
  have cyclic_prefix: "articleUrlPrefixOf cyclic u slug = u" for u slug
    by (simp add: cyclic_def demo_def)
  have a: "visit cyclic demo_opts 7 ?bp demo_url self_parent ?s0 = Some (Returned ?s1)"
  proof -
    have c: "registered_chain (uuidMap ?s0) self_parent 0 = Some [self_parent]"
      by (simp add: empty)
    have "visit cyclic demo_opts 7 ?bp demo_url self_parent ?s0 =
          visit_container cyclic ?bp self_parent (toLocaleLowerCase cyclic (js ''TITLE'')) ?s0"
      by (rule visit_container_branch)
         (simp_all add: self_parent_def empty cyclic_calls lower_samples)
    also have "\<dots> = Some (Returned ?s1)"
      by (subst visit_container_chain [OF c])
         (simp add: cyclic_calls lower_samples js_distinct register_def spec_updateProgress_def
            start_fields fresh_def Let_def)
    finally show ?thesis .
  qed
  have m1: "uuidMap ?s1 = [uuid self_parent \<mapsto> ?pa]"
    by (simp add: empty)
  have loop: "\<forall>k. registered_chain (uuidMap ?s1) self_parent k = None"
    by (intro allI self_parent_no_chain [where p = ?pa])
       (simp_all add: m1 self_parent_def progress_item_of_def)
  have cp: "uuidMap ?s1 (parent_uuid child) = Some ?pa"
    by (simp add: m1 child_def self_parent_def)
  have tp: "toc ?pa = self_parent"
    by (simp add: progress_item_of_def)
  have "\<forall>k. registered_chain (uuidMap ?s1) child k = None"
  proof
    fix k show "registered_chain (uuidMap ?s1) child k = None"
      by (rule child_no_chain [where m = "uuidMap ?s1" and p = ?pa])
         (simp_all only: cp tp loop simp_thms)
  qed
  then have "ancestor_walk (uuidMap ?s1) (Some child) [] [] = None"
    by (rule ancestor_walk_diverges)
  then have "visit_container cyclic ?bp child (toLocaleLowerCase cyclic (js ''TITLE'')) ?s1 = None"
    by (simp only: visit_container_def option.case)
  moreover have "visit cyclic demo_opts 7 ?bp demo_url child ?s1 =
      visit_container cyclic ?bp child (toLocaleLowerCase cyclic (js ''TITLE'')) ?s1"
    by (rule visit_container_branch)
       (simp_all add: child_def self_parent_def js_distinct cyclic_calls lower_samples
          start_fresh_index)
  ultimately have b: "visit cyclic demo_opts 7 ?bp demo_url child ?s1 = None" by simp
  have t: "traverse cyclic demo_opts 7 ?bp demo_url [self_parent, child] ?s0 = None"
    by (simp only: traverse.simps a b option.case outcome.case)
  have "main cyclic demo_url demo_opts =
        download cyclic demo_url demo_opts (demo_book\<lparr>tocList := Some [self_parent, child]\<rparr>) 7
          [self_parent, child]"
    by (rule main_download) (simp_all add: cyclic_calls demo_book_def)
  also have "\<dots> =
      (case traverse cyclic demo_opts 7 ?bp
              (articleUrlPrefixOf cyclic demo_url
                 (bookSlug (demo_book\<lparr>tocList := Some [self_parent, child]\<rparr>)))
              [self_parent, child] (start ?bp (length [self_parent, child]) fresh) of
         None \<Rightarrow> None
       | Some (Threw msg s5) \<Rightarrow> Some (Threw msg s5)
       | Some (Returned s5) \<Rightarrow>
           Some (finish cyclic (demo_book\<lparr>tocList := Some [self_parent, child]\<rparr>) ?bp
                  (length [self_parent, child]) s5))"
    by (rule download_loop [where u = "()"]) (simp_all add: cyclic_calls fresh_def)
  also have "\<dots> = None"
    by (simp only: len cyclic_prefix t option.case)
  finally show ?thesis .
qed

section \<open>The theorems at the sample inputs\<close>


lemma article_url_hello: "demo_url @ js ''/'' @ url hello = js ''https://www.yuque.com/u/demo/abc''"
  by (simp add: demo_url_def hello_def js_def)

text \<open>C2 for \<^verbatim>\<open>Hello\<close> when its request fails.\<close>

theorem failed_fetch_witness:
  "visit offline demo_opts 7 (js ''out/Demo'') demo_url hello after_intro =
     Some (Returned after_failed_hello)"
proof -
  have dl: "downloadArticle offline
      (article_params demo_opts 7 (js ''out/Demo'') demo_url (uuidMap after_intro) hello) =
      Rejected (js ''timeout'')"
    by (simp add: offline_calls)
  have up: "updateProgress offline (progressBar after_intro)
      (article_item (uuidMap after_intro) hello) False =
      Resolved \<lparr>curr = 2, isDownloadInterrupted = False, progressInfo = [item_intro, item_hello]\<rparr>"
    unfolding article_item_hello
    by (simp add: offline_calls spec_updateProgress_def after_intro_def)
  have lo: "toLocaleLowerCase offline (js ''DOC'') \<noteq> js ''title''"
    "toLocaleLowerCase offline (js ''DOC'') \<noteq> js ''link''"
    by (simp_all add: offline_calls lower_DOC)
  have "visit offline demo_opts 7 (js ''out/Demo'') demo_url hello after_intro =
      Some (Returned (after_intro\<lparr>
        uuidMap := (uuidMap after_intro)(uuid hello \<mapsto> item_hello),
        errArticleCount := errArticleCount after_intro + 1,
        totalArticleCount := totalArticleCount after_intro + 1,
        errArticleInfo := errArticleInfo after_intro @
          [\<lparr>articleUrl = js ''https://www.yuque.com/u/demo/abc'', errItem = item_hello,
            errMsg = js ''timeout''\<rparr>],
        progressBar := \<lparr>curr = 2, isDownloadInterrupted = False,
          progressInfo = [item_intro, item_hello]\<rparr>,
        trace := trace after_intro @ [DownloadArticle params_hello,
          UpdateProgress item_hello False]\<rparr>))"
    using failed_fetch_is_recorded_and_loop_continues
      [OF hello_is_article(1,2) lo hello_is_article(3,4) dl up, of "[]"]
    by (simp add: Let_def article_params_hello article_item_hello article_url_hello)
  also have "after_intro\<lparr>
        uuidMap := (uuidMap after_intro)(uuid hello \<mapsto> item_hello),
        errArticleCount := errArticleCount after_intro + 1,
        totalArticleCount := totalArticleCount after_intro + 1,
        errArticleInfo := errArticleInfo after_intro @
          [\<lparr>articleUrl = js ''https://www.yuque.com/u/demo/abc'', errItem = item_hello,
            errMsg = js ''timeout''\<rparr>],
        progressBar := \<lparr>curr = 2, isDownloadInterrupted = False,
          progressInfo = [item_intro, item_hello]\<rparr>,
        trace := trace after_intro @ [DownloadArticle params_hello,
          UpdateProgress item_hello False]\<rparr> = after_failed_hello"
    by (simp add: after_failed_hello_def after_intro_def hello_def)
  finally show ?thesis .
qed


lemma intro_is_root: "parent_uuid intro = []" "toc item_intro = intro"
  by (simp_all add: intro_def item_intro_def)

lemma link_is_link:
  "type link = Some (js ''LINK'')" "uuid link = js ''3''" "parent_uuid link = js ''1''"
  "url link = js ''https://example.org''"
  by (simp_all add: link_def)

lemma index_after_intro:
  "uuidMap after_intro (js ''1'') = Some item_intro" "uuidMap after_intro [] = None"
  "uuidMap after_intro (js ''2'') = None" "uuidMap after_intro (js ''3'') = None"
  by (simp_all add: after_intro_def js_def)

lemma chain_link: "registered_chain (uuidMap after_intro) link 1 = Some [intro, link]"
  by (simp add: link_is_link index_after_intro intro_is_root)

text \<open>
  C4 (amended) for the link below \<^verbatim>\<open>Intro\<close>, for \<^verbatim>\<open>Intro\<close> in an empty index, and for the title
  that is its own parent.
\<close>

theorem ancestor_walk_witness:
  "ancestor_walk (uuidMap after_intro) (Some link) [] [] =
     Some ([js ''Intro'', js ''Site''], [js ''1'', js ''3'']) \<and>
   ancestor_walk Map.empty (Some intro) [] [] = Some ([js ''Intro''], [js ''1'']) \<and>
   ancestor_walk [js ''a'' \<mapsto> progress_item_of [js ''A''] [js ''a''] self_parent]
     (Some self_parent) [] [] = None \<and>
   (\<exists>r. traverse demo demo_opts 7 (js ''out/Demo'') demo_url [intro, hello]
          (start (js ''out/Demo'') 2 fresh) = Some r)"
proof -
  let ?m = "[js ''a'' \<mapsto> progress_item_of [js ''A''] [js ''a''] self_parent]"
  let ?rank = "\<lambda>u. if u = js ''2'' then 1 else (0::nat)"
  have loop: "\<forall>k. registered_chain ?m self_parent k = None"
    by (intro allI self_parent_no_chain [where p = "progress_item_of [js ''A''] [js ''a''] self_parent"])
       (simp_all add: self_parent_def progress_item_of_def)
  have r: "ranked ?rank [intro, hello]"
    by (simp add: ranked_def intro_def hello_def js_def)
  have k: "keyed_by_uuid [intro, hello] (uuidMap (start (js ''out/Demo'') 2 fresh))"
    by (simp add: keyed_by_uuid_def start_fresh_index)
  have walks: "ancestor_walk (uuidMap after_intro) (Some link) [] [] =
     Some ([js ''Intro'', js ''Site''], [js ''1'', js ''3'']) \<and>
   ancestor_walk Map.empty (Some intro) [] [] = Some ([js ''Intro''], [js ''1'']) \<and>
   ancestor_walk ?m (Some self_parent) [] [] = None"
    using ancestor_walk_returns_iff_chain_leaves_index
        [of "uuidMap after_intro" link 1 "[intro, link]"]
      ancestor_walk_returns_iff_chain_leaves_index [of Map.empty intro 0 "[intro]"]
      ancestor_walk_returns_iff_chain_leaves_index [of ?m self_parent 0 "[]"]
      chain_link loop
    by (simp add: intro_def link_def fixPath_samples)
  have "\<exists>r. traverse demo demo_opts 7 (js ''out/Demo'') demo_url [intro, hello]
          (start (js ''out/Demo'') 2 fresh) = Some r"
    using ancestor_walk_returns_iff_chain_leaves_index
        [where rank = ?rank and es = "[intro, hello]" and items = "[intro, hello]"
          and s = "start (js ''out/Demo'') 2 fresh" and w = demo and opts = demo_opts
          and bid = 7 and bp = "js ''out/Demo''" and pre = demo_url] r k
    by blast
  with walks show ?thesis by blast
qed

text \<open>C5 for \<^verbatim>\<open>Hello\<close> below \<^verbatim>\<open>Intro\<close>.\<close>

theorem article_path_witness:
  "visit demo demo_opts 7 (js ''out/Demo'') demo_url hello after_intro =
     Some (visit_article demo demo_opts 7 (js ''out/Demo'') demo_url hello after_intro) \<and>
   map_option path (uuidMap (state_of
       (visit_article demo demo_opts 7 (js ''out/Demo'') demo_url hello after_intro)) (uuid hello)) =
     Some (js ''Intro/Hello.md'') \<and>
   arg_saveFilePath (article_params demo_opts 7 (js ''out/Demo'') demo_url (uuidMap after_intro) hello) =
     js ''out/Demo/Intro/Hello.md'' \<and>
   (\<exists>r. traverse demo demo_opts 7 (js ''out/Demo'') demo_url [part_a, part_b, page_x] initial =
          Some r \<and>
        map_option path (uuidMap (state_of r) (uuid page_x)) = Some (js ''A/B/X.md''))"
proof -
  have lo: "toLocaleLowerCase demo (js ''DOC'') \<noteq> js ''title''"
    "toLocaleLowerCase demo (js ''DOC'') \<noteq> js ''link''"
    by (simp_all add: demo_calls lower_DOC)
  have j: "join (js ''/'') [js ''Intro'', js ''Hello'' @ js ''.md''] = js ''Intro/Hello.md''"
    "js ''out/Demo'' @ js ''/'' @ js ''Intro/Hello.md'' = js ''out/Demo/Intro/Hello.md''"
    by (simp_all add: js_def)
  have t: "(case uuidMap after_intro (parent_uuid hello) of None \<Rightarrow> []
            | Some parent \<Rightarrow> pathTitleList parent) @ [fixPath (title hello) @ js ''.md''] =
           [js ''Intro'', js ''Hello'' @ js ''.md'']"
    by (simp add: after_intro_def item_intro_def hello_def fixPath_samples)
  note inst = article_path_extends_parent_path [where w = demo and opts = demo_opts and bid = 7
      and bp = "js ''out/Demo''" and pre = demo_url and item = hello and ty = "js ''DOC''"
      and s = after_intro and a = part_a and b' = part_b and c = page_x
      and ta = "js ''TITLE''" and tb = "js ''TITLE''" and tc = "js ''DOC''" and ?s0.0 = initial
      and U = "\<lambda>pb item isSuccess. pb\<lparr>curr := curr pb + 1, progressInfo := progressInfo pb @ [item]\<rparr>"]
  have one: "visit demo demo_opts 7 (js ''out/Demo'') demo_url hello after_intro =
     Some (visit_article demo demo_opts 7 (js ''out/Demo'') demo_url hello after_intro) \<and>
   map_option path (uuidMap (state_of
       (visit_article demo demo_opts 7 (js ''out/Demo'') demo_url hello after_intro)) (uuid hello)) =
     Some (js ''Intro/Hello.md'') \<and>
   arg_saveFilePath (article_params demo_opts 7 (js ''out/Demo'') demo_url (uuidMap after_intro) hello) =
     js ''out/Demo/Intro/Hello.md''"
    using inst [THEN conjunct1] hello_is_article lo
    unfolding Let_def t j by simp
  have x: "fixPath (title part_a) @ js ''/'' @ fixPath (title part_b) @ js ''/'' @
      fixPath (title page_x) @ js ''.md'' = js ''A/B/X.md''"
    by (simp add: part_a_def part_b_def page_x_def fixPath_samples) (simp add: js_def)
  have parts: "type part_a = Some (js ''TITLE'')" "type part_b = Some (js ''TITLE'')"
    "parent_uuid part_b = uuid part_a" "type page_x = Some (js ''DOC'')"
    "child_uuid page_x = []" "url page_x \<noteq> []" "parent_uuid page_x = uuid part_b"
    "parent_uuid part_a \<noteq> uuid part_a" "uuid part_b \<noteq> uuid part_a"
    "uuid page_x \<noteq> uuid part_a" "uuid page_x \<noteq> uuid part_b"
    by (simp_all add: part_a_def part_b_def page_x_def js_def)
  have world: "\<forall>p. mkdir demo p = Resolved ()"
    "\<forall>pb i f. updateProgress demo pb i f =
       Resolved (pb\<lparr>curr := curr pb + 1, progressInfo := progressInfo pb @ [i]\<rparr>)"
    "toLocaleLowerCase demo (js ''TITLE'') = js ''title''"
    "uuidMap initial = Map.empty"
    by (simp_all add: demo_calls spec_updateProgress_def lower_samples initial_def)
  have two: "\<exists>r. traverse demo demo_opts 7 (js ''out/Demo'') demo_url [part_a, part_b, page_x] initial =
          Some r \<and>
        map_option path (uuidMap (state_of r) (uuid page_x)) = Some (js ''A/B/X.md'')"
    using inst [THEN conjunct2] parts world lo
    unfolding x by blast
  from one two show ?thesis by blast
qed

text \<open>C6 for an entry without a type, a link, an article, and an entry without a URL.\<close>

theorem entry_classification_witness:
  "visit demo demo_opts 7 (js ''out/Demo'') demo_url (hello\<lparr>type := None\<rparr>) after_intro =
     Some (Returned after_intro) \<and>
   visit demo demo_opts 7 (js ''out/Demo'') demo_url link after_intro =
     visit_container demo (js ''out/Demo'') link (js ''link'') after_intro \<and>
   visit demo demo_opts 7 (js ''out/Demo'') demo_url hello after_intro =
     Some (visit_article demo demo_opts 7 (js ''out/Demo'') demo_url hello after_intro) \<and>
   visit demo demo_opts 7 (js ''out/Demo'') demo_url (hello\<lparr>url := []\<rparr>) after_intro =
     Some (Returned after_intro)"
proof -
  note c = entry_classification [where w = demo and s = after_intro and opts = demo_opts
      and b = 7 and bp = "js ''out/Demo''" and pre = demo_url]
  have 1: "visit demo demo_opts 7 (js ''out/Demo'') demo_url (hello\<lparr>type := None\<rparr>) after_intro =
     Some (Returned after_intro)"
    using c [where item = "hello\<lparr>type := None\<rparr>", THEN conjunct1] by simp
  have 2: "visit demo demo_opts 7 (js ''out/Demo'') demo_url link after_intro =
     visit_container demo (js ''out/Demo'') link (js ''link'') after_intro"
    using c [where item = link and ty = "js ''LINK''", THEN conjunct2, THEN conjunct1]
    by (simp add: Let_def link_is_link index_after_intro demo_calls lower_samples)
  have 3: "visit demo demo_opts 7 (js ''out/Demo'') demo_url hello after_intro =
     Some (visit_article demo demo_opts 7 (js ''out/Demo'') demo_url hello after_intro)"
    using c [where item = hello and ty = "js ''DOC''", THEN conjunct2, THEN conjunct1]
    by (simp add: Let_def hello_is_article demo_calls lower_DOC)
  have 4: "visit demo demo_opts 7 (js ''out/Demo'') demo_url (hello\<lparr>url := []\<rparr>) after_intro =
     Some (Returned after_intro)"
    using c [where item = "hello\<lparr>url := []\<rparr>" and ty = "js ''DOC''", THEN conjunct2,
        THEN conjunct1]
    by (simp add: Let_def hello_is_article demo_calls lower_DOC)
  from 1 2 3 4 show ?thesis by (intro conjI)
qed



text \<open>C9 (amended) for the first run of the sample scenario.\<close>

theorem summary_witness: "summary_calls (main demo demo_url demo_opts) = Some 1"
proof -
  have t: "traverse demo demo_opts 7 (book_path demo_opts demo_book 7)
      (articleUrlPrefixOf demo demo_url (bookSlug demo_book)) [intro, hello]
      (start (book_path demo_opts demo_book 7) (length [intro, hello]) fresh) =
      Some (Returned after_hello)"
  proof -
    have len: "length [intro, hello] = 2" by simp
    show ?thesis by (simp only: book_path_demo len demo_calls demo_traverse)
  qed
  have h: "getKnowledgeBaseInfo demo demo_url = Resolved demo_book" "bookId demo_book = Some 7"
    "(7::int) \<noteq> 0" "tocList demo_book = Some [intro, hello]" "[intro, hello] \<noteq> []"
    "mkdir demo (book_path demo_opts demo_book 7) = Resolved ()"
    "init demo (book_path demo_opts demo_book 7) (length [intro, hello]) = Resolved fresh"
    "curr fresh \<noteq> length [intro, hello]"
    by (simp_all add: demo_calls demo_book_def fresh_def)
  from summary_generated_once_after_loop [where w = demo and url' = demo_url and opts = demo_opts
      and info = demo_book and bid = 7 and es = "[intro, hello]" and pb = fresh
      and ?s5.0 = after_hello and r = "Returned demo_final" and msg = "[]"] t h
  show ?thesis by blast
qed

text \<open>C10 for the two items of the sample scenario.\<close>

theorem constructed_items_witness: "wf_item item_intro \<and> wf_item item_hello"
proof -
  have pre: "\<forall>k p. uuidMap (start (js ''out/Demo'') 2 fresh) k = Some p \<longrightarrow>
      length (pathTitleList p) = length (pathIdList p)"
    by (simp add: start_fresh_index)
  note wf = constructed_items_are_well_formed [OF pre demo_traverse]
  from wf have "uuidMap after_hello (js ''1'') = Some item_intro \<longrightarrow> wf_item item_intro"
    and "uuidMap after_hello (js ''2'') = Some item_hello \<longrightarrow> wf_item item_hello"
    by (simp_all add: start_fresh_index)
  then show ?thesis
    by (simp add: after_hello_def js_distinct)
qed

end
